theory Spec2Isabelle
  imports Main
begin

section \<open>Text primitives of the patch scripts\<close>

text \<open>
  The scripts work on Python \<open>str\<close> values: a \<^typ>\<open>string\<close> here, one \<^typ>\<open>char\<close> per code
  point (code points below 256). A file holds such a string too, with its line endings as
  they are stored. The scripts open every file in text mode with the default \<open>newline\<close>
  argument: reading turns every \<open>\r\n\<close> and every lone \<open>\r\<close> into \<open>\n\<close>, and writing, on the
  POSIX system the paths of the scripts belong to, puts the text as it is.
\<close>

definition startswith :: "string \<Rightarrow> string \<Rightarrow> bool" where
  \<comment> \<open>\<open>s.startswith(p)\<close>\<close>
  "startswith s p = (take (length p) s = p)"

fun str_in :: "string \<Rightarrow> string \<Rightarrow> bool" where
  \<comment> \<open>\<open>p in s\<close>: substring containment, tried at every offset of \<open>s\<close>\<close>
  "str_in p [] = (p = [])"
| "str_in p (c # cs) = (startswith (c # cs) p \<or> str_in p cs)"

fun readlines :: "string \<Rightarrow> string list" where
  \<comment> \<open>\<open>f.readlines()\<close>: every line keeps its terminating newline; a last line without
      one is returned as it is\<close>
  "readlines [] = []"
| "readlines (c # cs) =
     (if c = CHR ''\<newline>'' then [c] # readlines cs
      else (case readlines cs of
              [] \<Rightarrow> [[c]]
            | l # ls \<Rightarrow> (c # l) # ls))"

fun universal_newlines :: "string \<Rightarrow> string" where
  \<comment> \<open>what text mode does to the characters of a file when it reads them\<close>
  "universal_newlines [] = []"
| "universal_newlines [c] = (if c = CHR 0x0D then [CHR ''\<newline>''] else [c])"
| "universal_newlines (c # d # cs) =
     (if c = CHR 0x0D then
        (if d = CHR ''\<newline>'' then CHR ''\<newline>'' # universal_newlines cs
         else CHR ''\<newline>'' # universal_newlines (d # cs))
      else c # universal_newlines (d # cs))"

definition writelines :: "string list \<Rightarrow> string" where
  \<comment> \<open>\<open>f.writelines(lines)\<close>: the lines one after the other, nothing added\<close>
  "writelines ls = concat ls"

definition is_space :: "char \<Rightarrow> bool" where
  \<comment> \<open>the code points below 256 that \<open>str.isspace\<close>, \<open>str.strip\<close> and the regular
      expression \<open>\s\<close> take as whitespace\<close>
  "is_space c = (of_char c \<in> {9, 10, 11, 12, 13, 28, 29, 30, 31, 32, 133, 160 :: nat})"

definition lstrip :: "string \<Rightarrow> string" where
  "lstrip s = dropWhile is_space s"

definition strip :: "string \<Rightarrow> string" where
  \<comment> \<open>\<open>s.strip()\<close>: whitespace removed at both ends\<close>
  "strip s = rev (dropWhile is_space (rev (dropWhile is_space s)))"

fun split_nl :: "string \<Rightarrow> string list" where
  \<comment> \<open>\<open>s.split('\n')\<close>: the pieces between newlines, at least one piece; the \<open>[]\<close> branch
      of the case is never taken\<close>
  "split_nl [] = [[]]"
| "split_nl (c # cs) =
     (if c = CHR ''\<newline>'' then [] # split_nl cs
      else (case split_nl cs of
              [] \<Rightarrow> [[c]]
            | l # ls \<Rightarrow> (c # l) # ls))"

fun join_nl :: "string list \<Rightarrow> string" where
  \<comment> \<open>\<open>'\n'.join(lines)\<close>\<close>
  "join_nl [] = []"
| "join_nl [l] = l"
| "join_nl (l # ls) = l @ CHR ''\<newline>'' # join_nl ls"

definition list_insert :: "nat \<Rightarrow> 'a \<Rightarrow> 'a list \<Rightarrow> 'a list" where
  \<comment> \<open>\<open>xs.insert(i, x)\<close> for \<open>i \<ge> 0\<close>: before position \<open>i\<close>, at the end when \<open>i\<close> is
      beyond it\<close>
  "list_insert i x xs = take i xs @ x # drop i xs"

section \<open>The files, the console and the errors of a run\<close>

type_synonym path = string

datatype io_error = FileNotFoundError | PermissionError | UnicodeDecodeError | OSError

text \<open>The lines the scripts print, one constructor per \<open>print\<close> call of the sources.\<close>

datatype console_line =
    Found_async_without_await nat path
  | File_not_found path
  | Fixed path
  | Fixed_files nat
  | Fixed_indentation path
  | Fixed_indentation_in_SimpleAutoMLModel
  | Error_fixing path io_error
  | Added_using path

text \<open>
  The world a script runs in. \<open>present w p\<close> is the answer of \<open>os.path.exists(p)\<close>.
  \<open>files w p\<close> is what opening \<open>p\<close> for reading and decoding all of it gives: the
  characters of the file, or the exception raised. \<open>read_only w p\<close> says that opening \<open>p\<close>
  for writing raises, the file staying as it is. \<open>write_limit w p = Some n\<close> says that
  only \<open>n\<close> characters can be written to \<open>p\<close> (a full disk, a size limit): a longer write
  raises after the file was emptied and the first \<open>n\<close> characters were put. \<open>written\<close>
  lists the paths opened for writing with success, in order, so that a write of the same
  text is still seen; \<open>console\<close> lists the lines printed. An exception leaves a world
  behind, so every operation returns the world it ends in, also when it raises.
\<close>

record world =
  present :: "path \<Rightarrow> bool"
  files :: "path \<Rightarrow> io_error + string"
  read_only :: "path \<Rightarrow> bool"
  write_limit :: "path \<Rightarrow> nat option"
  written :: "path list"
  console :: "console_line list"

definition path_exists :: "world \<Rightarrow> path \<Rightarrow> bool" where
  \<comment> \<open>\<open>os.path.exists(p)\<close>\<close>
  "path_exists w p = present w p"

definition print_line :: "world \<Rightarrow> console_line \<Rightarrow> world" where
  "print_line w x = w\<lparr>console := console w @ [x]\<rparr>"

definition read_text :: "world \<Rightarrow> path \<Rightarrow> io_error + string" where
  \<comment> \<open>\<open>with open(p, 'r', encoding='utf-8') as f: f.read()\<close>\<close>
  "read_text w p =
     (case files w p of
        Inl e \<Rightarrow> Inl e
      | Inr s \<Rightarrow> Inr (universal_newlines s))"

definition put :: "world \<Rightarrow> path \<Rightarrow> string \<Rightarrow> world" where
  \<comment> \<open>the file \<open>p\<close> opened for writing and left holding \<open>s\<close>\<close>
  "put w p s =
     w\<lparr>present := (present w)(p := True), files := (files w)(p := Inr s),
       written := written w @ [p]\<rparr>"

definition write_file :: "world \<Rightarrow> path \<Rightarrow> string \<Rightarrow> io_error option \<times> world" where
  \<comment> \<open>\<open>with open(p, 'w', encoding='utf-8') as f: f.write(s)\<close>: the exception raised, if
      any, and the world left\<close>
  "write_file w p s =
     (if read_only w p then (Some PermissionError, w)
      else (case write_limit w p of
              None \<Rightarrow> (None, put w p s)
            | Some n \<Rightarrow>
                if length s \<le> n then (None, put w p s)
                else (Some OSError, put w p (take n s))))"

section \<open>The region reindenter (\<open>fix_simpleautoml_indentation.py\<close>, \<open>fix_interpretable_region_indentation.py\<close>)\<close>

definition region_start :: string where
  "region_start = ''#region IInterpretableModel Implementation''"

definition region_end :: string where
  "region_end = ''#endregion''"

definition indent4 :: string where
  "indent4 = ''    ''"

definition indent8 :: string where
  "indent8 = ''        ''"

text \<open>
  One iteration of \<open>for line in lines\<close>; the loop state is the pair
  \<open>(in_region, fixed_lines)\<close>. The four branches are those of the source, in its order.
\<close>

fun loop_body :: "bool \<times> string list \<Rightarrow> string \<Rightarrow> bool \<times> string list" where
  "loop_body (in_region, fixed_lines) line =
     (if str_in region_start line then (True, fixed_lines @ [line])
      else if str_in region_end line \<and> in_region then (False, fixed_lines @ [line])
      else if in_region then
        (if startswith line indent4 \<and> \<not> startswith line indent8
         then (in_region, fixed_lines @ [indent4 @ line])
         else (in_region, fixed_lines @ [line]))
      else (in_region, fixed_lines @ [line]))"

definition fix_lines :: "string list \<Rightarrow> string list" where
  \<comment> \<open>the list \<open>fixed_lines\<close> when the loop ends, from \<open>in_region = False\<close> and \<open>[]\<close>\<close>
  "fix_lines ls = snd (foldl loop_body (False, []) ls)"

definition in_region_at :: "string list \<Rightarrow> nat \<Rightarrow> bool" where
  \<comment> \<open>the variable \<open>in_region\<close> when the loop reaches line \<open>i\<close>\<close>
  "in_region_at ls i = fst (foldl loop_body (False, []) (take i ls))"

definition reindent_text :: "string \<Rightarrow> string" where
  \<comment> \<open>read the lines, run the loop, write the lines: the whole pass on a document\<close>
  "reindent_text text = writelines (fix_lines (readlines text))"

definition region_files_to_fix :: "path list" where
  "region_files_to_fix =
     [''/mnt/c/projects/AiDotNet/src/MultimodalAI/MultimodalModelBase.cs'',
      ''/mnt/c/projects/AiDotNet/src/Models/ParameterPlaceholderModel.cs'',
      ''/mnt/c/projects/AiDotNet/src/Models/VectorModel.cs'',
      ''/mnt/c/projects/AiDotNet/src/Reasoning/ReasoningModelBase.cs'',
      ''/mnt/c/projects/AiDotNet/src/NeuralNetworks/TokenizerAdapter.cs'',
      ''/mnt/c/projects/AiDotNet/src/ReinforcementLearning/Models/ReinforcementLearningModelBase.cs'']"

definition rewrite_indentation :: "world \<Rightarrow> path \<Rightarrow> io_error option \<times> world" where
  \<comment> \<open>what both scripts do with one file: read the lines, run the loop, write back\<close>
  "rewrite_indentation w file_path =
     (case read_text w file_path of
        Inl e \<Rightarrow> (Some e, w)
      | Inr text \<Rightarrow>
          (let lines = readlines text;
               fixed_lines = fix_lines lines
           in write_file w file_path (writelines fixed_lines)))"

definition fix_indentation_file :: "world \<Rightarrow> path \<Rightarrow> world" where
  \<comment> \<open>one iteration of \<open>for file_path in files_to_fix\<close>: the body of the \<open>try\<close> ends with
      its \<open>print\<close>; \<open>except Exception as e\<close> prints and goes on\<close>
  "fix_indentation_file w file_path =
     (case rewrite_indentation w file_path of
        (None, w') \<Rightarrow> print_line w' (Fixed_indentation file_path)
      | (Some e, w') \<Rightarrow> print_line w' (Error_fixing file_path e))"

definition fix_indentation_files :: "path list \<Rightarrow> world \<Rightarrow> world" where
  "fix_indentation_files ps w = foldl fix_indentation_file w ps"

definition fix_interpretable_region_indentation :: "world \<Rightarrow> world" where
  "fix_interpretable_region_indentation w = fix_indentation_files region_files_to_fix w"

definition fix_simpleautoml_indentation :: "world \<Rightarrow> io_error option \<times> world" where
  \<comment> \<open>\<open>fix_simpleautoml_indentation.py\<close>: one file, no \<open>try\<close>, and a \<open>print\<close> of its own\<close>
  "fix_simpleautoml_indentation w =
     (case rewrite_indentation w ''/mnt/c/projects/AiDotNet/src/AutoML/SimpleAutoMLModel.cs'' of
        (None, w') \<Rightarrow> (None, print_line w' Fixed_indentation_in_SimpleAutoMLModel)
      | (Some e, w') \<Rightarrow> (Some e, w'))"

section \<open>The pattern counter (\<open>fix_async_errors.py\<close>)\<close>

text \<open>
  \<open>re.findall\<close> for the two patterns the script counts. \<open>\s+\<close> is greedy, and what follows
  it (the letter T, or nothing) never is whitespace, so a match takes the whole run of
  whitespace. A matcher returns the matched text and the rest of the string; the search
  goes on after a match, and one character further when there is none.
\<close>

definition match_async_Task :: "string \<Rightarrow> (string \<times> string) option" where
  \<comment> \<open>\<open>async\s+Task\<close> at the start of \<open>s\<close>\<close>
  "match_async_Task s =
     (if startswith s ''async'' then
        (let r = drop 5 s; ws = takeWhile is_space r; r' = dropWhile is_space r
         in if ws \<noteq> [] \<and> startswith r' ''Task''
            then Some (''async'' @ ws @ ''Task'', drop 4 r') else None)
      else None)"

definition match_await :: "string \<Rightarrow> (string \<times> string) option" where
  \<comment> \<open>\<open>await\s+\<close> at the start of \<open>s\<close>\<close>
  "match_await s =
     (if startswith s ''await'' then
        (let r = drop 5 s; ws = takeWhile is_space r; r' = dropWhile is_space r
         in if ws \<noteq> [] then Some (''await'' @ ws, r') else None)
      else None)"

function findall_async_Task :: "string \<Rightarrow> string list" where
  \<comment> \<open>\<open>re.findall(r'async\s+Task', s)\<close>\<close>
  "findall_async_Task s =
     (case match_async_Task s of
        Some (m, rest) \<Rightarrow> m # findall_async_Task rest
      | None \<Rightarrow> (case s of [] \<Rightarrow> [] | c # cs \<Rightarrow> findall_async_Task cs))"
  by pat_completeness auto
termination
proof (relation "measure length")
  fix s :: string and x2 m rest
  assume "match_async_Task s = Some x2" and "(m, rest) = x2"
  then have a: "match_async_Task s = Some (m, rest)" by simp
  then have "startswith s ''async''" and "rest = drop 4 (dropWhile is_space (drop 5 s))"
    by (auto simp: match_async_Task_def Let_def split: if_splits)
  moreover from this have "0 < length s" by (auto simp: startswith_def)
  moreover have "length (dropWhile is_space (drop 5 s)) \<le> length (drop 5 s)"
    by (rule length_dropWhile_le)
  ultimately show "(rest, s) \<in> measure length" by (simp del: length_greater_0_conv)
qed simp_all

function findall_await :: "string \<Rightarrow> string list" where
  \<comment> \<open>\<open>re.findall(r'await\s+', s)\<close>\<close>
  "findall_await s =
     (case match_await s of
        Some (m, rest) \<Rightarrow> m # findall_await rest
      | None \<Rightarrow> (case s of [] \<Rightarrow> [] | c # cs \<Rightarrow> findall_await cs))"
  by pat_completeness auto
termination
proof (relation "measure length")
  fix s :: string and x2 m rest
  assume "match_await s = Some x2" and "(m, rest) = x2"
  then have a: "match_await s = Some (m, rest)" by simp
  then have "startswith s ''await''" and "rest = dropWhile is_space (drop 5 s)"
    by (auto simp: match_await_def Let_def split: if_splits)
  moreover from this have "0 < length s" by (auto simp: startswith_def)
  moreover have "length (dropWhile is_space (drop 5 s)) \<le> length (drop 5 s)"
    by (rule length_dropWhile_le)
  ultimately show "(rest, s) \<in> measure length" by (simp del: length_greater_0_conv)
qed simp_all

declare findall_async_Task.simps [simp del]

declare findall_await.simps [simp del]

text \<open>
  \<open>pattern1\<close>, \<open>replace1\<close> and \<open>pattern2\<close> of the source are bound and never used: the
  function reads, counts, prints and returns.
\<close>

definition fix_async_method_without_await ::
    "world \<Rightarrow> path \<Rightarrow> (io_error + bool \<times> string) \<times> world" where
  "fix_async_method_without_await w file_path =
     (case read_text w file_path of
        Inl e \<Rightarrow> (Inl e, w)
      | Inr content \<Rightarrow>
          (let original_content = content;
               async_count = length (findall_async_Task content);
               await_count = length (findall_await content);
               w' = (if async_count > await_count
                     then print_line w
                            (Found_async_without_await (async_count - await_count) file_path)
                     else w)
           in (Inr (content \<noteq> original_content, content), w')))"

definition process_file :: "world \<Rightarrow> path \<Rightarrow> (io_error + bool) \<times> world" where
  "process_file w file_path =
     (if \<not> path_exists w file_path
      then (Inr False, print_line w (File_not_found file_path))
      else (case fix_async_method_without_await w file_path of
              (Inl e, w1) \<Rightarrow> (Inl e, w1)
            | (Inr (changed, content), w1) \<Rightarrow>
                if changed then
                  (case write_file w1 file_path content of
                     (Some e, w2) \<Rightarrow> (Inl e, w2)
                   | (None, w2) \<Rightarrow> (Inr True, print_line w2 (Fixed file_path)))
                else (Inr False, w1)))"

fun main_loop :: "world \<Rightarrow> nat \<Rightarrow> path list \<Rightarrow> (io_error + nat) \<times> world" where
  \<comment> \<open>\<open>for file_path in files_to_fix\<close>, with the counter \<open>fixed_count\<close>; an exception
      leaves the loop\<close>
  "main_loop w fixed_count [] = (Inr fixed_count, w)"
| "main_loop w fixed_count (file_path # rest) =
     (case process_file w file_path of
        (Inl e, w') \<Rightarrow> (Inl e, w')
      | (Inr fixed, w') \<Rightarrow>
          main_loop w' (if fixed then fixed_count + 1 else fixed_count) rest)"

definition main_on :: "path list \<Rightarrow> world \<Rightarrow> (io_error + nat) \<times> world" where
  \<comment> \<open>\<open>main()\<close> with its list of files as a parameter; the result carries \<open>fixed_count\<close>\<close>
  "main_on files_to_fix w =
     (case main_loop w 0 files_to_fix of
        (Inl e, w') \<Rightarrow> (Inl e, w')
      | (Inr fixed_count, w') \<Rightarrow> (Inr fixed_count, print_line w' (Fixed_files fixed_count)))"

definition async_files_to_fix :: "path list" where
  "async_files_to_fix =
     [''/mnt/c/projects/AiDotNet/src/ProductionMonitoring/AlertManager.cs'',
      ''/mnt/c/projects/AiDotNet/src/ProductionMonitoring/ConceptDriftDetector.cs'',
      ''/mnt/c/projects/AiDotNet/src/ProductionMonitoring/ModelHealthScorer.cs'',
      ''/mnt/c/projects/AiDotNet/src/ProductionMonitoring/PerformanceMonitor.cs'',
      ''/mnt/c/projects/AiDotNet/src/ProductionMonitoring/RetrainingRecommender.cs'',
      ''/mnt/c/projects/AiDotNet/src/Pipeline/DataLoadingStep.cs'',
      ''/mnt/c/projects/AiDotNet/src/Pipeline/MLPipelineExample.cs'',
      ''/mnt/c/projects/AiDotNet/src/Pipeline/PipelineOrchestrator.cs'',
      ''/mnt/c/projects/AiDotNet/src/FoundationModels/Providers/ONNXModelProvider.cs'']"

definition main :: "world \<Rightarrow> (io_error + nat) \<times> world" where
  "main w = main_on async_files_to_fix w"

section \<open>The declaration injector (\<open>fix_remaining_cs0535.py\<close>)\<close>

definition using_decl :: string where
  "using_decl = ''using AiDotNet.Interpretability;''"

definition is_using_line :: "string \<Rightarrow> bool" where
  \<comment> \<open>\<open>line.strip().startswith("using ") and ";" in line\<close>\<close>
  "is_using_line line = (startswith (strip line) ''using '' \<and> str_in '';'' line)"

fun last_using_loop :: "int \<Rightarrow> (nat \<times> string) list \<Rightarrow> int" where
  \<comment> \<open>\<open>for i, line in enumerate(lines)\<close>, with the variable \<open>last_using_idx\<close>\<close>
  "last_using_loop last_using_idx [] = last_using_idx"
| "last_using_loop last_using_idx ((i, line) # rest) =
     last_using_loop (if is_using_line line then int i else last_using_idx) rest"

definition check_and_add_using :: "world \<Rightarrow> path \<Rightarrow> (io_error + bool) \<times> world" where
  "check_and_add_using w file_path =
     (case read_text w file_path of
        Inl e \<Rightarrow> (Inl e, w)
      | Inr content \<Rightarrow>
          if \<not> str_in using_decl content then
            (let lines = split_nl content;
                 last_using_idx = last_using_loop (- 1) (enumerate 0 lines)
             in if last_using_idx \<ge> 0 then
                  (let lines' = list_insert (nat (last_using_idx + 1)) using_decl lines;
                       content' = join_nl lines'
                   in case write_file w file_path content' of
                        (Some e, w') \<Rightarrow> (Inl e, w')
                      | (None, w') \<Rightarrow> (Inr True, print_line w' (Added_using file_path)))
                else (Inr False, w))
          else (Inr False, w))"

section \<open>Vocabulary of the claims\<close>

definition leading_spaces :: "string \<Rightarrow> nat" where
  \<comment> \<open>how many spaces a line starts with\<close>
  "leading_spaces l = length (takeWhile (\<lambda>c. c = CHR '' '') l)"

fun occurrences :: "string \<Rightarrow> string \<Rightarrow> nat" where
  \<comment> \<open>at how many offsets of \<open>s\<close> the string \<open>p\<close> stands\<close>
  "occurrences p [] = (if p = [] then 1 else 0)"
| "occurrences p (c # cs) = (if startswith (c # cs) p then 1 else 0) + occurrences p cs"

text \<open>
  The lines of a marked region, in the words of the specification: a line is in a region
  when a line at or before it holds the start marker and no line strictly between the two
  holds the end marker. The start-marker line and the end-marker line belong to the region.
\<close>

definition in_marked_region :: "string list \<Rightarrow> nat \<Rightarrow> bool" where
  "in_marked_region ls i =
     (\<exists>j\<in>{..i}. str_in region_start (ls ! j) \<and>
        (\<forall>k\<in>{j<..<i}. \<not> str_in region_end (ls ! k)))"

text \<open>
  The two patterns as sets of strings, and the matches \<open>re.findall\<close> is documented to
  return for a pattern: scanning from the left, at the first offset where some match
  starts the match the pattern takes there (for these two patterns, whose only choice is
  the greedy \<open>\s+\<close>, the longest one), then on from the end of that match.
\<close>

definition is_async_Task :: "string \<Rightarrow> bool" where
  \<comment> \<open>the strings the pattern \<open>async\s+Task\<close> matches in full\<close>
  "is_async_Task m =
     (let ws = take (length m - 9) (drop 5 m)
      in m = ''async'' @ ws @ ''Task'' \<and> ws \<noteq> [] \<and> list_all is_space ws)"

definition is_await :: "string \<Rightarrow> bool" where
  \<comment> \<open>the strings the pattern \<open>await\s+\<close> matches in full\<close>
  "is_await m = (let ws = drop 5 m in m = ''await'' @ ws \<and> ws \<noteq> [] \<and> list_all is_space ws)"

definition match_lengths :: "(string \<Rightarrow> bool) \<Rightarrow> string \<Rightarrow> nat list" where
  \<comment> \<open>the lengths, in rising order, of the non-empty matches that start \<open>s\<close>\<close>
  "match_lengths P s = filter (\<lambda>n. P (take n s)) [1..<Suc (length s)]"

function nonoverlapping_matches :: "(string \<Rightarrow> bool) \<Rightarrow> string \<Rightarrow> string list" where
  "nonoverlapping_matches P s =
     (case s of
        [] \<Rightarrow> []
      | c # cs \<Rightarrow>
          (case match_lengths P s of
             [] \<Rightarrow> nonoverlapping_matches P cs
           | n # ns \<Rightarrow>
               take (last (n # ns)) s # nonoverlapping_matches P (drop (last (n # ns)) s)))"
  by pat_completeness auto
termination
proof (relation "measure (\<lambda>(P, s). length s)")
  fix P :: "string \<Rightarrow> bool" and s :: string and c cs n ns
  assume s: "s = c # cs" and m: "match_lengths P s = n # ns"
  define k where "k = last (n # ns)"
  have "k \<in> set (match_lengths P s)"
    unfolding m k_def by (rule last_in_set) simp
  moreover have "\<forall>x\<in>set (match_lengths P s). 0 < x"
    by (auto simp: match_lengths_def)
  ultimately have "0 < k" by blast
  with s have "length (drop k s) < length s" by simp
  then show "((P, drop (last (n # ns)) s), (P, s)) \<in> measure (\<lambda>(P, s). length s)"
    unfolding k_def by simp
qed simp_all

declare nonoverlapping_matches.simps [simp del]

definition deficit :: "string \<Rightarrow> int" where
  \<comment> \<open>declarations minus fulfillments\<close>
  "deficit content =
     int (length (nonoverlapping_matches is_async_Task content)) -
     int (length (nonoverlapping_matches is_await content))"

definition async_report :: "world \<Rightarrow> path \<Rightarrow> console_line list" where
  \<comment> \<open>the lines \<open>process_file\<close> prints for a path that is absent, or present and readable\<close>
  "async_report w p =
     (if \<not> present w p then [File_not_found p]
      else (case read_text w p of
              Inl e \<Rightarrow> []
            | Inr content \<Rightarrow>
                (if length (findall_async_Task content) > length (findall_await content)
                 then [Found_async_without_await
                         (length (findall_async_Task content) - length (findall_await content)) p]
                 else [])))"

definition inject_twice :: "world \<Rightarrow> path \<Rightarrow> (io_error + bool) \<times> world" where
  \<comment> \<open>two calls of \<open>check_and_add_using\<close> on the same path, one after the other\<close>
  "inject_twice w file_path =
     (case check_and_add_using w file_path of
        (Inl e, w1) \<Rightarrow> (Inl e, w1)
      | (Inr added, w1) \<Rightarrow> check_and_add_using w1 file_path)"

definition no_files :: world where
  \<comment> \<open>a world for the examples: no file, nothing written, nothing printed\<close>
  "no_files =
     \<lparr>present = (\<lambda>p. False), files = (\<lambda>p. Inl FileNotFoundError),
      read_only = (\<lambda>p. False), write_limit = (\<lambda>p. None), written = [], console = []\<rparr>"

definition with_file :: "world \<Rightarrow> path \<Rightarrow> string \<Rightarrow> world" where
  "with_file w p s = w\<lparr>present := (present w)(p := True), files := (files w)(p := Inr s)\<rparr>"

definition with_unreadable :: "world \<Rightarrow> path \<Rightarrow> io_error \<Rightarrow> world" where
  \<comment> \<open>a file that is there and raises \<open>e\<close> when it is read\<close>
  "with_unreadable w p e =
     w\<lparr>present := (present w)(p := True), files := (files w)(p := Inl e)\<rparr>"

definition with_write_limit :: "world \<Rightarrow> path \<Rightarrow> nat \<Rightarrow> world" where
  "with_write_limit w p n = w\<lparr>write_limit := (write_limit w)(p := Some n)\<rparr>"

text \<open>The loop, unrolled into the flag it leaves and the line it emits at each step.\<close>

definition next_flag :: "bool \<Rightarrow> string \<Rightarrow> bool" where
  "next_flag r line = fst (loop_body (r, []) line)"

definition emit :: "bool \<Rightarrow> string \<Rightarrow> string" where
  "emit r line = last (snd (loop_body (r, []) line))"

primrec flag_after :: "bool \<Rightarrow> string list \<Rightarrow> bool" where
  "flag_after r [] = r"
| "flag_after r (l # ls) = flag_after (next_flag r l) ls"

primrec emits :: "bool \<Rightarrow> string list \<Rightarrow> string list" where
  "emits r [] = []"
| "emits r (l # ls) = emit r l # emits (next_flag r l) ls"

text \<open>
  The lines \<open>readlines\<close> returns are never empty, end in a newline except perhaps the
  last, and hold no other newline. The loop keeps a list of that shape, and reading the
  written text gives the list back.
\<close>

fun proper_lines :: "string list \<Rightarrow> bool" where
  "proper_lines [] = True"
| "proper_lines [l] = (l \<noteq> [] \<and> CHR ''\<newline>'' \<notin> set (butlast l))"
| "proper_lines (l # ls) =
     (l \<noteq> [] \<and> CHR ''\<newline>'' \<notin> set (butlast l) \<and> last l = CHR ''\<newline>'' \<and> proper_lines ls)"

section \<open>The loop of the reindenter, unrolled\<close>

lemma loop_body_unrolled:
  "loop_body (r, acc) line = (next_flag r line, acc @ [emit r line])"
  by (simp add: next_flag_def emit_def)

lemma foldl_loop_body:
  "foldl loop_body (r, acc) ls = (flag_after r ls, acc @ emits r ls)"
  by (induction ls arbitrary: r acc) (simp_all add: loop_body_unrolled del: loop_body.simps)

lemma fix_lines_emits: "fix_lines ls = emits False ls"
  by (simp add: fix_lines_def foldl_loop_body)

lemma in_region_at_flag: "in_region_at ls i = flag_after False (take i ls)"
  by (simp add: in_region_at_def foldl_loop_body)

lemma length_emits [simp]: "length (emits r ls) = length ls"
  by (induction ls arbitrary: r) simp_all

lemma emits_nth:
  "i < length ls \<Longrightarrow> emits r ls ! i = emit (flag_after r (take i ls)) (ls ! i)"
proof (induction ls arbitrary: r i)
  case Nil
  then show ?case by simp
next
  case (Cons l ls)
  then show ?case by (cases i) simp_all
qed

lemma fix_lines_nth:
  "i < length ls \<Longrightarrow> fix_lines ls ! i = emit (in_region_at ls i) (ls ! i)"
  by (simp add: fix_lines_emits in_region_at_flag emits_nth)

lemma length_fix_lines [simp]: "length (fix_lines ls) = length ls"
  by (simp add: fix_lines_emits)

lemma emit_outside: "emit False line = line"
  by (simp add: emit_def)

lemma emit_start_marker: "str_in region_start line \<Longrightarrow> emit r line = line"
  by (simp add: emit_def)

lemma emit_end_marker: "str_in region_end line \<Longrightarrow> emit r line = line"
  by (cases r) (simp_all add: emit_def)

lemma emit_inside:
  "\<not> str_in region_start line \<Longrightarrow> \<not> str_in region_end line \<Longrightarrow>
   emit True line =
     (if startswith line indent4 \<and> \<not> startswith line indent8 then indent4 @ line else line)"
  by (simp add: emit_def)

lemma emit_cases: "emit r l = l \<or> emit r l = indent4 @ l"
  by (simp add: emit_def)

section \<open>Reading back what was written\<close>

lemma proper_readlines: "proper_lines (readlines t)"
proof (induction t)
  case Nil
  then show ?case by simp
next
  case (Cons c cs)
  show ?case
  proof (cases "c = CHR ''\<newline>''")
    case True
    with Cons show ?thesis by (cases "readlines cs") simp_all
  next
    case False
    show ?thesis
    proof (cases "readlines cs")
      case Nil
      with False show ?thesis by simp
    next
      case (Cons l ls)
      with False Cons.IH show ?thesis
        by (cases ls; cases l) (auto)
    qed
  qed
qed

lemma readlines_last_line:
  "l \<noteq> [] \<Longrightarrow> CHR ''\<newline>'' \<notin> set (butlast l) \<Longrightarrow> readlines l = [l]"
proof (induction l)
  case Nil
  then show ?case by simp
next
  case (Cons c cs)
  then show ?case by (cases "cs = []") (auto split: list.splits)
qed

lemma readlines_line_append:
  "l \<noteq> [] \<Longrightarrow> CHR ''\<newline>'' \<notin> set (butlast l) \<Longrightarrow> last l = CHR ''\<newline>'' \<Longrightarrow>
   readlines (l @ rest) = l # readlines rest"
proof (induction l)
  case Nil
  then show ?case by simp
next
  case (Cons c cs)
  then show ?case by (cases "cs = []") (auto split: list.splits)
qed

lemma readlines_concat: "proper_lines ls \<Longrightarrow> readlines (concat ls) = ls"
proof (induction ls rule: proper_lines.induct)
  case 1
  then show ?case by simp
next
  case (2 l)
  then show ?case by (simp add: readlines_last_line)
next
  case (3 l v va)
  then show ?case by (simp add: readlines_line_append)
qed

lemma emit_line_shape:
  "l \<noteq> [] \<Longrightarrow> emit r l \<noteq> [] \<and> last (emit r l) = last l \<and>
     (CHR ''\<newline>'' \<in> set (butlast (emit r l)) \<longleftrightarrow> CHR ''\<newline>'' \<in> set (butlast l))"
  using emit_cases [of r l] by (auto simp: indent4_def butlast_append)

lemma proper_emits: "proper_lines ls \<Longrightarrow> proper_lines (emits r ls)"
proof (induction ls arbitrary: r rule: proper_lines.induct)
  case 1
  then show ?case by simp
next
  case (2 l)
  then show ?case using emit_line_shape [of l r] by simp
next
  case (3 l v va)
  then show ?case using emit_line_shape [of l r] by simp
qed

lemma readlines_reindent_text: "readlines (reindent_text t) = fix_lines (readlines t)"
  by (simp add: reindent_text_def writelines_def fix_lines_emits readlines_concat
      proper_emits proper_readlines)

section \<open>A second pass changes nothing\<close>

lemma startswith_Cons:
  "startswith (c # s) p = (case p of [] \<Rightarrow> True | d # q \<Rightarrow> c = d \<and> startswith s q)"
  by (cases p) (auto simp: startswith_def)

lemma str_in_skip:
  "p \<noteq> [] \<Longrightarrow> hd p \<noteq> c \<Longrightarrow> str_in p (c # s) = str_in p s"
  by (cases p) (auto simp: startswith_Cons)

lemma str_in_indent4:
  "p \<noteq> [] \<Longrightarrow> hd p \<noteq> CHR '' '' \<Longrightarrow> str_in p (indent4 @ s) = str_in p s"
  by (simp add: indent4_def str_in_skip del: str_in.simps)

lemma str_in_start_indent4 [simp]: "str_in region_start (indent4 @ s) = str_in region_start s"
  by (rule str_in_indent4) (simp_all add: region_start_def)

lemma str_in_end_indent4 [simp]: "str_in region_end (indent4 @ s) = str_in region_end s"
  by (rule str_in_indent4) (simp_all add: region_end_def)

lemma startswith_indent8: "startswith s indent4 \<Longrightarrow> startswith (indent4 @ s) indent8"
  by (auto simp: startswith_def indent4_def indent8_def)

lemma next_flag_emit: "next_flag r (emit r l) = next_flag r l"
  by (simp add: next_flag_def emit_def)

lemma emit_emit: "emit r (emit r l) = emit r l"
  by (simp add: emit_def startswith_indent8)

lemma emits_idem: "emits r (emits r ls) = emits r ls"
  by (induction ls arbitrary: r) (simp_all add: next_flag_emit emit_emit)

lemma fix_lines_idem: "fix_lines (fix_lines ls) = fix_lines ls"
  by (simp add: fix_lines_emits emits_idem)

section \<open>Which lines the loop changes\<close>

lemma startswith_replicate:
  "startswith l (replicate n c) \<longleftrightarrow> n \<le> length (takeWhile (\<lambda>x. x = c) l)"
proof (induction n arbitrary: l)
  case 0
  then show ?case by (simp add: startswith_def)
next
  case (Suc n)
  show ?case
  proof (cases l)
    case Nil
    then show ?thesis by (simp add: startswith_def)
  next
    case (Cons d ds)
    with Suc [of ds] show ?thesis by (auto simp: startswith_def)
  qed
qed

lemma startswith_indent4_iff: "startswith l indent4 \<longleftrightarrow> 4 \<le> leading_spaces l"
proof -
  have "indent4 = replicate 4 (CHR '' '')" by (simp add: indent4_def numeral_eq_Suc)
  with startswith_replicate [of l 4 "CHR '' ''"] show ?thesis
    by (simp add: leading_spaces_def)
qed

lemma startswith_indent8_iff: "startswith l indent8 \<longleftrightarrow> 8 \<le> leading_spaces l"
proof -
  have "indent8 = replicate 8 (CHR '' '')" by (simp add: indent8_def numeral_eq_Suc)
  with startswith_replicate [of l 8 "CHR '' ''"] show ?thesis
    by (simp add: leading_spaces_def)
qed

lemma flag_after_snoc: "flag_after r (ls @ [l]) = next_flag (flag_after r ls) l"
  by (induction ls arbitrary: r) simp_all

lemma next_flag_True:
  "next_flag f l \<Longrightarrow> str_in region_start l \<or> (f \<and> \<not> str_in region_start l \<and> \<not> str_in region_end l)"
  by (auto simp: next_flag_def split: if_splits)

lemma flag_after_opened:
  "flag_after False ls \<Longrightarrow>
   \<exists>j<length ls. str_in region_start (ls ! j) \<and>
     (\<forall>k. j < k \<and> k < length ls \<longrightarrow>
        \<not> str_in region_start (ls ! k) \<and> \<not> str_in region_end (ls ! k))"
proof (induction ls rule: rev_induct)
  case Nil
  then show ?case by simp
next
  case (snoc l ls)
  from snoc.prems have "next_flag (flag_after False ls) l" by (simp add: flag_after_snoc)
  then consider (start) "str_in region_start l"
    | (stay) "flag_after False ls" "\<not> str_in region_start l" "\<not> str_in region_end l"
    using next_flag_True by blast
  then show ?case
  proof cases
    case start
    then have "length ls < length (ls @ [l]) \<and> str_in region_start ((ls @ [l]) ! length ls) \<and>
     (\<forall>k. length ls < k \<and> k < length (ls @ [l]) \<longrightarrow>
        \<not> str_in region_start ((ls @ [l]) ! k) \<and> \<not> str_in region_end ((ls @ [l]) ! k))"
      by auto
    then show ?thesis by blast
  next
    case stay
    from snoc.IH [OF stay(1)] obtain j where j: "j < length ls" "str_in region_start (ls ! j)"
      "\<forall>k. j < k \<and> k < length ls \<longrightarrow>
        \<not> str_in region_start (ls ! k) \<and> \<not> str_in region_end (ls ! k)" by blast
    have "\<forall>k. j < k \<and> k < length (ls @ [l]) \<longrightarrow>
        \<not> str_in region_start ((ls @ [l]) ! k) \<and> \<not> str_in region_end ((ls @ [l]) ! k)"
    proof (intro allI impI)
      fix k assume k: "j < k \<and> k < length (ls @ [l])"
      show "\<not> str_in region_start ((ls @ [l]) ! k) \<and> \<not> str_in region_end ((ls @ [l]) ! k)"
      proof (cases "k < length ls")
        case True
        with k j(3) show ?thesis by (simp add: nth_append)
      next
        case False
        with k have "k = length ls" by simp
        with stay show ?thesis by simp
      qed
    qed
    moreover from j have "j < length (ls @ [l])" "str_in region_start ((ls @ [l]) ! j)"
      by (simp_all add: nth_append)
    ultimately show ?thesis by blast
  qed
qed

lemma fix_lines_changed:
  assumes "i < length ls" and "fix_lines ls ! i \<noteq> ls ! i"
  shows "in_region_at ls i \<and> \<not> str_in region_start (ls ! i) \<and> \<not> str_in region_end (ls ! i)"
  using assms emit_outside emit_start_marker emit_end_marker
  by (cases "in_region_at ls i") (auto simp: fix_lines_nth)

section \<open>Occurrences, lines and the anchor of the injector\<close>

lemma str_in_iff_occurrences: "str_in p s \<longleftrightarrow> 0 < occurrences p s"
  by (induction s) auto

lemma startswith_line_break:
  assumes "CHR ''\<newline>'' \<notin> set p"
  shows "startswith (l @ CHR ''\<newline>'' # rest) p \<longleftrightarrow> startswith l p"
proof (cases "length p \<le> length l")
  case True
  then show ?thesis by (simp add: startswith_def)
next
  case False
  then have "take (length p) (l @ CHR ''\<newline>'' # rest) =
             l @ CHR ''\<newline>'' # take (length p - length l - 1) rest"
    by (simp add: take_Cons')
  then have "CHR ''\<newline>'' \<in> set (take (length p) (l @ CHR ''\<newline>'' # rest))" by simp
  with assms have "take (length p) (l @ CHR ''\<newline>'' # rest) \<noteq> p" by metis
  moreover from False have "length (take (length p) l) < length p" by simp
  then have "take (length p) l \<noteq> p" by auto
  ultimately show ?thesis by (simp add: startswith_def)
qed

lemma occurrences_line_break:
  assumes "CHR ''\<newline>'' \<notin> set p" and "p \<noteq> []"
  shows "occurrences p (l @ CHR ''\<newline>'' # rest) = occurrences p l + occurrences p rest"
proof (induction l)
  case Nil
  from assms have "\<not> startswith (CHR ''\<newline>'' # rest) p"
    by (cases p) (auto simp: startswith_def)
  with assms show ?case by simp
next
  case (Cons c cs)
  from startswith_line_break [OF assms(1), of "c # cs" rest] Cons show ?case by simp
qed

lemma occurrences_join_nl:
  assumes "CHR ''\<newline>'' \<notin> set p" and "p \<noteq> []"
  shows "occurrences p (join_nl ls) = sum_list (map (occurrences p) ls)"
proof (induction ls rule: join_nl.induct)
  case 1
  with assms show ?case by simp
next
  case (2 l)
  then show ?case by simp
next
  case (3 l v va)
  then show ?case by (simp add: occurrences_line_break [OF assms])
qed

lemma split_nl_nonempty [simp]: "split_nl s \<noteq> []"
  by (induction s) (auto split: list.splits)

lemma join_split_nl: "join_nl (split_nl s) = s"
proof (induction s)
  case Nil
  then show ?case by simp
next
  case (Cons c cs)
  obtain l ls where sp: "split_nl cs = l # ls" by (cases "split_nl cs") simp_all
  show ?case
  proof (cases "c = CHR ''\<newline>''")
    case True
    with Cons sp show ?thesis by simp
  next
    case False
    with Cons sp show ?thesis by (cases ls) auto
  qed
qed

lemma occurrences_insert:
  assumes "CHR ''\<newline>'' \<notin> set p" and "p \<noteq> []"
  shows "occurrences p (join_nl (list_insert k d (split_nl s))) = occurrences p s + occurrences p d"
proof -
  let ?f = "occurrences p" and ?xs = "split_nl s"
  have "sum_list (map ?f ?xs) = sum_list (map ?f (take k ?xs @ drop k ?xs))"
    by (simp only: append_take_drop_id)
  also have "\<dots> = sum_list (map ?f (take k ?xs)) + sum_list (map ?f (drop k ?xs))"
    by (simp only: map_append sum_list_append)
  finally have whole: "sum_list (map ?f ?xs) =
      sum_list (map ?f (take k ?xs)) + sum_list (map ?f (drop k ?xs))" .
  have "?f (join_nl (list_insert k d ?xs)) = sum_list (map ?f (list_insert k d ?xs))"
    by (rule occurrences_join_nl [OF assms])
  also have "\<dots> = sum_list (map ?f (take k ?xs)) + sum_list (map ?f (drop k ?xs)) + ?f d"
    by (simp add: list_insert_def)
  also have "\<dots> = sum_list (map ?f ?xs) + ?f d"
    by (simp only: whole)
  also have "sum_list (map ?f ?xs) = ?f (join_nl ?xs)"
    by (rule occurrences_join_nl [OF assms, symmetric])
  finally show ?thesis by (simp only: join_split_nl)
qed

lemma occurrences_using_decl_self: "occurrences using_decl using_decl = 1"
  by code_simp

lemma using_decl_no_newline: "CHR ''\<newline>'' \<notin> set using_decl \<and> using_decl \<noteq> []"
  by (simp add: using_decl_def)

lemma last_using_loop_none:
  "\<forall>l\<in>set ls. \<not> is_using_line l \<Longrightarrow> last_using_loop idx (enumerate n ls) = idx"
  by (induction ls arbitrary: idx n) simp_all

lemma last_using_loop_keeps_nonneg:
  "0 \<le> idx \<Longrightarrow> 0 \<le> last_using_loop idx xs"
proof (induction xs arbitrary: idx)
  case Nil
  then show ?case by simp
next
  case (Cons x xs)
  obtain i line where x: "x = (i, line)" by (cases x)
  show ?case unfolding x last_using_loop.simps
    by (rule Cons.IH) (simp add: Cons.prems)
qed

lemma last_using_loop_nonneg:
  "\<exists>l\<in>set ls. is_using_line l \<Longrightarrow> 0 \<le> last_using_loop idx (enumerate n ls)"
proof (induction ls arbitrary: idx n)
  case Nil
  then show ?case by simp
next
  case (Cons l ls)
  show ?case
  proof (cases "is_using_line l")
    case True
    then show ?thesis by (simp add: last_using_loop_keeps_nonneg)
  next
    case False
    with Cons.prems have "\<exists>l\<in>set ls. is_using_line l" by simp
    from Cons.IH [OF this] False show ?thesis by simp
  qed
qed

lemma str_in_single: "str_in [c] s \<longleftrightarrow> c \<in> set s"
  by (induction s) (auto simp: startswith_def)

lemma semicolon_not_space: "\<not> is_space CHR '';''"
  by (simp add: is_space_def)

lemma strip_decompose:
  "lstrip line = strip line @ rev (takeWhile is_space (rev (lstrip line)))"
proof -
  let ?ys = "rev (lstrip line)"
  have "strip line @ rev (takeWhile is_space ?ys) =
        rev (dropWhile is_space ?ys) @ rev (takeWhile is_space ?ys)"
    by (simp add: strip_def lstrip_def)
  also have "\<dots> = rev (takeWhile is_space ?ys @ dropWhile is_space ?ys)"
    by (rule rev_append [symmetric])
  also have "\<dots> = rev ?ys"
    by (simp only: takeWhile_dropWhile_id)
  finally show ?thesis by simp
qed

lemma nonspace_in_strip:
  assumes "c \<in> set line" and "\<not> is_space c"
  shows "c \<in> set (strip line)"
proof -
  have "set line = set (takeWhile is_space line @ dropWhile is_space line)"
    by (simp only: takeWhile_dropWhile_id)
  also have "\<dots> = set (takeWhile is_space line) \<union> set (dropWhile is_space line)"
    by (rule set_append)
  finally have "set line = set (takeWhile is_space line) \<union> set (lstrip line)"
    by (simp only: lstrip_def)
  moreover from assms(2) have "c \<notin> set (takeWhile is_space line)"
    by (auto dest: set_takeWhileD)
  ultimately have "c \<in> set (lstrip line)" using assms(1) by simp
  then have "c \<in> set (strip line @ rev (takeWhile is_space (rev (lstrip line))))"
    by (simp only: strip_decompose [symmetric])
  then have "c \<in> set (strip line) \<or> c \<in> set (takeWhile is_space (rev (lstrip line)))"
    by simp
  moreover from assms(2) have "c \<notin> set (takeWhile is_space (rev (lstrip line)))"
    by (auto dest: set_takeWhileD)
  ultimately show ?thesis by simp
qed

lemma startswith_append_iff:
  assumes "\<exists>c\<in>set u. c \<notin> set p"
  shows "startswith (u @ v) p \<longleftrightarrow> startswith u p"
proof (cases "length p \<le> length u")
  case True
  then show ?thesis by (simp add: startswith_def)
next
  case False
  have "take (length p) (u @ v) \<noteq> p"
  proof
    assume "take (length p) (u @ v) = p"
    then have "take (length u) p = take (length u) (take (length p) (u @ v))" by simp
    also from False have "\<dots> = u" by (simp add: min_def)
    finally have "set u \<subseteq> set p" by (metis set_take_subset)
    with assms show False by blast
  qed
  moreover from False have "length (take (length p) u) < length p" by simp
  then have "take (length p) u \<noteq> p" by auto
  ultimately show ?thesis by (simp add: startswith_def)
qed

lemma is_using_line_lstrip:
  "is_using_line line \<longleftrightarrow> startswith (lstrip line) ''using '' \<and> str_in '';'' line"
proof (cases "CHR '';'' \<in> set line")
  case False
  then show ?thesis by (simp add: is_using_line_def str_in_single)
next
  case True
  let ?v = "rev (takeWhile is_space (rev (lstrip line)))"
  from True have "CHR '';'' \<in> set (strip line)"
    by (rule nonspace_in_strip) (rule semicolon_not_space)
  moreover have "CHR '';'' \<notin> set ''using ''" by simp
  ultimately have "\<exists>c\<in>set (strip line). c \<notin> set ''using ''" by blast
  then have a: "startswith (strip line @ ?v) ''using '' \<longleftrightarrow> startswith (strip line) ''using ''"
    by (rule startswith_append_iff)
  have "startswith (lstrip line) ''using '' = startswith (strip line @ ?v) ''using ''"
    by (rule arg_cong [where f = "\<lambda>x. startswith x ''using ''"]) (rule strip_decompose)
  with a have "startswith (lstrip line) ''using '' \<longleftrightarrow> startswith (strip line) ''using ''"
    by blast
  then show ?thesis by (simp add: is_using_line_def)
qed

section \<open>What \<open>findall\<close> returns\<close>

lemma startswith_split: "length p = n \<Longrightarrow> startswith s p \<Longrightarrow> s = p @ drop n s"
  unfolding startswith_def by (metis append_take_drop_id)

lemma list_all_takeWhile: "list_all P (takeWhile P xs)"
  by (induction xs) simp_all

lemma match_async_Task_Some:
  assumes "match_async_Task s = Some (m, rest)"
  shows "s = m @ rest \<and> is_async_Task m"
proof -
  let ?r = "drop 5 s"
  let ?ws = "takeWhile is_space ?r"
  let ?r' = "dropWhile is_space ?r"
  from assms have a: "startswith s ''async''" and ws: "?ws \<noteq> []"
    and t: "startswith ?r' ''Task''"
    and m: "m = ''async'' @ ?ws @ ''Task''" and rest: "rest = drop 4 ?r'"
    by (auto simp: match_async_Task_def Let_def split: if_splits)
  have "s = ''async'' @ ?r" by (rule startswith_split [OF _ a]) simp
  also have "?r = ?ws @ ?r'" by simp
  also have "?r' = ''Task'' @ rest" unfolding rest by (rule startswith_split [OF _ t]) simp
  finally have "s = m @ rest" by (simp add: m)
  moreover have "is_async_Task m"
    using ws by (simp add: is_async_Task_def m list_all_takeWhile)
  ultimately show ?thesis by simp
qed

lemma match_await_Some:
  assumes "match_await s = Some (m, rest)"
  shows "s = m @ rest \<and> is_await m"
proof -
  let ?r = "drop 5 s"
  let ?ws = "takeWhile is_space ?r"
  from assms have a: "startswith s ''await''" and ws: "?ws \<noteq> []"
    and m: "m = ''await'' @ ?ws" and rest: "rest = dropWhile is_space ?r"
    by (auto simp: match_await_def Let_def split: if_splits)
  have "s = ''await'' @ ?r" by (rule startswith_split [OF _ a]) simp
  also have "?r = ?ws @ rest" by (simp add: rest)
  finally have "s = m @ rest" by (simp add: m)
  moreover have "is_await m"
    using ws by (simp add: is_await_def m list_all_takeWhile)
  ultimately show ?thesis by simp
qed

lemma findall_async_Task_Nil: "findall_async_Task [] = []"
  by (subst findall_async_Task.simps) (simp add: match_async_Task_def startswith_def)

lemma findall_async_Task_None:
  "match_async_Task (c # cs) = None \<Longrightarrow> findall_async_Task (c # cs) = findall_async_Task cs"
  by (subst findall_async_Task.simps) simp

lemma findall_async_Task_Some:
  "match_async_Task s = Some (m, rest) \<Longrightarrow> findall_async_Task s = m # findall_async_Task rest"
  by (subst findall_async_Task.simps) simp

lemma findall_await_Nil: "findall_await [] = []"
  by (subst findall_await.simps) (simp add: match_await_def startswith_def)

lemma findall_await_None:
  "match_await (c # cs) = None \<Longrightarrow> findall_await (c # cs) = findall_await cs"
  by (subst findall_await.simps) simp

lemma findall_await_Some:
  "match_await s = Some (m, rest) \<Longrightarrow> findall_await s = m # findall_await rest"
  by (subst findall_await.simps) simp

section \<open>The matchers and the documented scan\<close>

text \<open>
  The matchers written for the two patterns find what the documented scan finds: the same
  matches, in the same order.
\<close>

lemma sorted_le_last: "sorted xs \<Longrightarrow> y \<in> set xs \<Longrightarrow> y \<le> last xs"
  by (induction xs) auto

lemma last_filter_upt:
  fixes x :: nat
  assumes "P x" and "a \<le> x" and "x < b" and "\<forall>y. y < b \<and> P y \<longrightarrow> y \<le> x"
  shows "filter P [a..<b] \<noteq> [] \<and> last (filter P [a..<b]) = x"
proof -
  let ?xs = "filter P [a..<b]"
  from assms(1-3) have x: "x \<in> set ?xs" by simp
  then have "0 < length ?xs" by (rule length_pos_if_in_set)
  then have ne: "?xs \<noteq> []" by blast
  have "sorted ?xs" by (rule sorted_wrt_filter) simp
  then have "x \<le> last ?xs" using x by (rule sorted_le_last)
  moreover from ne have "last ?xs \<in> set ?xs" by (rule last_in_set)
  then have "last ?xs \<le> x" using assms(4) by auto
  ultimately show ?thesis using ne by simp
qed

lemma is_await_iff:
  "is_await m \<longleftrightarrow> (\<exists>ws. m = ''await'' @ ws \<and> ws \<noteq> [] \<and> list_all is_space ws)"
proof
  assume "is_await m"
  then show "\<exists>ws. m = ''await'' @ ws \<and> ws \<noteq> [] \<and> list_all is_space ws"
    unfolding is_await_def Let_def by blast
next
  assume "\<exists>ws. m = ''await'' @ ws \<and> ws \<noteq> [] \<and> list_all is_space ws"
  then obtain ws where "m = ''await'' @ ws" "ws \<noteq> []" "list_all is_space ws" by blast
  then show "is_await m" by (simp add: is_await_def)
qed

lemma is_async_Task_iff:
  "is_async_Task m \<longleftrightarrow> (\<exists>ws. m = ''async'' @ ws @ ''Task'' \<and> ws \<noteq> [] \<and> list_all is_space ws)"
proof
  assume "is_async_Task m"
  then show "\<exists>ws. m = ''async'' @ ws @ ''Task'' \<and> ws \<noteq> [] \<and> list_all is_space ws"
    unfolding is_async_Task_def Let_def by blast
next
  assume "\<exists>ws. m = ''async'' @ ws @ ''Task'' \<and> ws \<noteq> [] \<and> list_all is_space ws"
  then obtain ws where "m = ''async'' @ ws @ ''Task''" "ws \<noteq> []" "list_all is_space ws" by blast
  then show "is_async_Task m" by (simp add: is_async_Task_def)
qed

lemma T_not_space: "\<not> is_space CHR ''T''"
  by (simp add: is_space_def)

lemma match_await_found:
  assumes "is_await (take n s)" and "n \<le> length s"
  shows "\<exists>m rest. match_await s = Some (m, rest) \<and> n \<le> length m"
proof -
  from assms(1) obtain ws where m: "take n s = ''await'' @ ws" and ne: "ws \<noteq> []"
    and sp: "list_all is_space ws"
    unfolding is_await_iff by blast
  have "s = take n s @ drop n s" by simp
  with m have s: "s = ''await'' @ ws @ drop n s" by simp
  from sp have tw: "takeWhile is_space (ws @ drop n s) = ws @ takeWhile is_space (drop n s)"
    by (simp add: takeWhile_append2 list_all_iff)
  have st: "startswith s ''await''" by (subst s) (simp add: startswith_def)
  have d5: "drop 5 s = ws @ drop n s" by (subst s) simp
  from ne tw have "match_await s =
      Some (''await'' @ ws @ takeWhile is_space (drop n s), dropWhile is_space (drop 5 s))"
    by (simp add: match_await_def st d5 Let_def)
  moreover have "length (take n s) = length (''await'' @ ws)" by (simp only: m)
  with assms(2) have "n = 5 + length ws" by simp
  ultimately show ?thesis by simp
qed


lemma match_async_Task_found:
  assumes "is_async_Task (take n s)" and "n \<le> length s"
  shows "\<exists>m rest. match_async_Task s = Some (m, rest) \<and> n \<le> length m"
proof -
  from assms(1) obtain ws where m: "take n s = ''async'' @ ws @ ''Task''" and ne: "ws \<noteq> []"
    and sp: "list_all is_space ws"
    unfolding is_async_Task_iff by blast
  define t where "t = ''Task'' @ drop n s"
  have "s = take n s @ drop n s" by simp
  with m have s: "s = ''async'' @ ws @ t" by (simp add: t_def)
  have t0: "takeWhile is_space t = []" and t1: "dropWhile is_space t = t"
    by (simp_all add: t_def T_not_space)
  from sp have "takeWhile is_space (ws @ t) = ws @ takeWhile is_space t"
    by (simp add: takeWhile_append2 list_all_iff)
  with t0 have tw: "takeWhile is_space (ws @ t) = ws" by simp
  from sp have "dropWhile is_space (ws @ t) = dropWhile is_space t"
    by (simp add: dropWhile_append2 list_all_iff)
  with t1 have dw: "dropWhile is_space (ws @ t) = t" by simp
  have st: "startswith s ''async''" by (subst s) (simp add: startswith_def)
  have d5: "drop 5 s = ws @ t" by (subst s) simp
  have st4: "startswith t ''Task''" by (simp add: t_def startswith_def)
  have d4: "drop 4 t = drop n s" by (simp add: t_def)
  from ne have "match_async_Task s = Some (''async'' @ ws @ ''Task'', drop n s)"
    by (simp only: match_async_Task_def st d5 tw dw Let_def st4 d4 if_True simp_thms)
  moreover have "length (take n s) = length (''async'' @ ws @ ''Task'')" by (simp only: m)
  with assms(2) have "n = 9 + length ws" by simp
  ultimately show ?thesis by simp
qed

lemma match_lengths_await_None:
  assumes "match_await s = None"
  shows "match_lengths is_await s = []"
proof -
  have "\<not> is_await (take n s)" if "n \<le> length s" for n
    using match_await_found [OF _ that] assms by auto
  then show ?thesis by (auto simp add: match_lengths_def filter_empty_conv)
qed

lemma match_lengths_async_Task_None:
  assumes "match_async_Task s = None"
  shows "match_lengths is_async_Task s = []"
proof -
  have "\<not> is_async_Task (take n s)" if "n \<le> length s" for n
    using match_async_Task_found [OF _ that] assms by auto
  then show ?thesis by (auto simp add: match_lengths_def filter_empty_conv)
qed

lemma match_lengths_await_Some:
  assumes "match_await s = Some (m, rest)"
  shows "match_lengths is_await s \<noteq> [] \<and> last (match_lengths is_await s) = length m"
proof -
  from match_await_Some [OF assms] have s: "s = m @ rest" and im: "is_await m" by simp_all
  from im have "m \<noteq> []" by (auto simp: is_await_iff)
  then have one: "1 \<le> length m" by (cases m) simp_all
  from s have le: "length m < Suc (length s)" by simp
  from s im have p: "is_await (take (length m) s)" by simp
  have up: "\<forall>y. y < Suc (length s) \<and> is_await (take y s) \<longrightarrow> y \<le> length m"
  proof (intro allI impI)
    fix y assume "y < Suc (length s) \<and> is_await (take y s)"
    then have "is_await (take y s)" and "y \<le> length s" by simp_all
    from match_await_found [OF this] assms show "y \<le> length m" by auto
  qed
  from last_filter_upt [of "\<lambda>n. is_await (take n s)", OF p one le up]
  show ?thesis by (simp add: match_lengths_def)
qed

lemma match_lengths_async_Task_Some:
  assumes "match_async_Task s = Some (m, rest)"
  shows "match_lengths is_async_Task s \<noteq> [] \<and>
         last (match_lengths is_async_Task s) = length m"
proof -
  from match_async_Task_Some [OF assms] have s: "s = m @ rest" and im: "is_async_Task m"
    by simp_all
  from im have "m \<noteq> []" by (auto simp: is_async_Task_iff)
  then have one: "1 \<le> length m" by (cases m) simp_all
  from s have le: "length m < Suc (length s)" by simp
  from s im have p: "is_async_Task (take (length m) s)" by simp
  have up: "\<forall>y. y < Suc (length s) \<and> is_async_Task (take y s) \<longrightarrow> y \<le> length m"
  proof (intro allI impI)
    fix y assume "y < Suc (length s) \<and> is_async_Task (take y s)"
    then have "is_async_Task (take y s)" and "y \<le> length s" by simp_all
    from match_async_Task_found [OF this] assms show "y \<le> length m" by auto
  qed
  from last_filter_upt [of "\<lambda>n. is_async_Task (take n s)", OF p one le up]
  show ?thesis by (simp add: match_lengths_def)
qed

lemma nonoverlapping_Nil: "nonoverlapping_matches P [] = []"
  by (subst nonoverlapping_matches.simps) simp

lemma nonoverlapping_skip:
  "match_lengths P (c # cs) = [] \<Longrightarrow>
   nonoverlapping_matches P (c # cs) = nonoverlapping_matches P cs"
  by (subst nonoverlapping_matches.simps) simp

lemma nonoverlapping_take:
  assumes "s \<noteq> []" and "match_lengths P s \<noteq> []" and "last (match_lengths P s) = k"
  shows "nonoverlapping_matches P s = take k s # nonoverlapping_matches P (drop k s)"
proof -
  from assms(1) obtain c cs where s: "s = c # cs" by (cases s) simp_all
  from assms(2) obtain n ns where m: "match_lengths P s = n # ns"
    by (cases "match_lengths P s") simp_all
  from assms(3) m have k: "last (n # ns) = k" by simp
  have "nonoverlapping_matches P s =
        take (last (n # ns)) s # nonoverlapping_matches P (drop (last (n # ns)) s)"
    by (subst nonoverlapping_matches.simps) (simp add: s m [unfolded s] del: last.simps)
  then show ?thesis by (simp only: k)
qed

lemma findall_await_spec: "findall_await s = nonoverlapping_matches is_await s"
proof (induction s rule: findall_await.induct)
  case (1 s)
  show ?case
  proof (cases "match_await s")
    case None
    show ?thesis
    proof (cases s)
      case Nil
      then show ?thesis by (simp add: findall_await_Nil nonoverlapping_Nil)
    next
      case (Cons c cs)
      from None have "match_lengths is_await s = []" by (rule match_lengths_await_None)
      with Cons have "nonoverlapping_matches is_await s = nonoverlapping_matches is_await cs"
        by (simp add: nonoverlapping_skip)
      moreover from None Cons have "findall_await s = findall_await cs"
        by (simp add: findall_await_None)
      moreover from 1(1) [OF None Cons]
      have "findall_await cs = nonoverlapping_matches is_await cs" .
      ultimately show ?thesis by simp
    qed
  next
    case (Some a)
    obtain m rest where a: "a = (m, rest)" by (cases a)
    from Some a have ms: "match_await s = Some (m, rest)" by simp
    from match_await_Some [OF ms] have s: "s = m @ rest" and im: "is_await m" by simp_all
    from im have "m \<noteq> []" by (auto simp: is_await_iff)
    with s have ne: "s \<noteq> []" by simp
    from match_lengths_await_Some [OF ms]
    have "nonoverlapping_matches is_await s =
          take (length m) s # nonoverlapping_matches is_await (drop (length m) s)"
      by (intro nonoverlapping_take ne) simp_all
    with s have "nonoverlapping_matches is_await s = m # nonoverlapping_matches is_await rest"
      by simp
    moreover from ms have "findall_await s = m # findall_await rest"
      by (rule findall_await_Some)
    moreover from 1(2) [OF Some a [symmetric]]
    have "findall_await rest = nonoverlapping_matches is_await rest" .
    ultimately show ?thesis by simp
  qed
qed

lemma findall_async_Task_spec:
  "findall_async_Task s = nonoverlapping_matches is_async_Task s"
proof (induction s rule: findall_async_Task.induct)
  case (1 s)
  show ?case
  proof (cases "match_async_Task s")
    case None
    show ?thesis
    proof (cases s)
      case Nil
      then show ?thesis by (simp add: findall_async_Task_Nil nonoverlapping_Nil)
    next
      case (Cons c cs)
      from None have "match_lengths is_async_Task s = []"
        by (rule match_lengths_async_Task_None)
      with Cons have "nonoverlapping_matches is_async_Task s =
          nonoverlapping_matches is_async_Task cs"
        by (simp add: nonoverlapping_skip)
      moreover from None Cons have "findall_async_Task s = findall_async_Task cs"
        by (simp add: findall_async_Task_None)
      moreover from 1(1) [OF None Cons]
      have "findall_async_Task cs = nonoverlapping_matches is_async_Task cs" .
      ultimately show ?thesis by simp
    qed
  next
    case (Some a)
    obtain m rest where a: "a = (m, rest)" by (cases a)
    from Some a have ms: "match_async_Task s = Some (m, rest)" by simp
    from match_async_Task_Some [OF ms] have s: "s = m @ rest" and im: "is_async_Task m"
      by simp_all
    from im have "m \<noteq> []" by (auto simp: is_async_Task_iff)
    with s have ne: "s \<noteq> []" by simp
    from match_lengths_async_Task_Some [OF ms]
    have "nonoverlapping_matches is_async_Task s =
          take (length m) s # nonoverlapping_matches is_async_Task (drop (length m) s)"
      by (intro nonoverlapping_take ne) simp_all
    with s have "nonoverlapping_matches is_async_Task s =
        m # nonoverlapping_matches is_async_Task rest"
      by simp
    moreover from ms have "findall_async_Task s = m # findall_async_Task rest"
      by (rule findall_async_Task_Some)
    moreover from 1(2) [OF Some a [symmetric]]
    have "findall_async_Task rest = nonoverlapping_matches is_async_Task rest" .
    ultimately show ?thesis by simp
  qed
qed

section \<open>Text mode\<close>

lemma universal_newlines_no_CR: "CHR 0x0D \<notin> set (universal_newlines s)"
  by (induction s rule: universal_newlines.induct) simp_all

lemma universal_newlines_id: "CHR 0x0D \<notin> set s \<Longrightarrow> universal_newlines s = s"
  by (induction s rule: universal_newlines.induct) auto

lemma set_split_nl: "l \<in> set (split_nl s) \<Longrightarrow> set l \<subseteq> set s"
proof (induction s arbitrary: l)
  case Nil
  then show ?case by simp
next
  case (Cons c cs)
  show ?case
  proof (cases "c = CHR ''\<newline>''")
    case True
    with Cons.prems have "l = [] \<or> l \<in> set (split_nl cs)" by simp
    with Cons.IH show ?thesis by auto
  next
    case False
    show ?thesis
    proof (cases "split_nl cs")
      case Nil
      with False Cons.prems show ?thesis by simp
    next
      case (Cons h t)
      with False Cons.prems have "l = c # h \<or> l \<in> set t" by simp
      moreover have "set h \<subseteq> set cs" using Cons Cons.IH [of h] by simp
      moreover have "l \<in> set t \<Longrightarrow> set l \<subseteq> set cs" using Cons Cons.IH [of l] by simp
      ultimately show ?thesis by auto
    qed
  qed
qed

lemma set_join_nl: "c \<in> set (join_nl ls) \<Longrightarrow> c = CHR ''\<newline>'' \<or> (\<exists>l\<in>set ls. c \<in> set l)"
  by (induction ls rule: join_nl.induct) auto

lemma set_list_insert: "set (list_insert i x xs) = insert x (set xs)"
proof -
  have "set (take i xs) \<union> set (drop i xs) = set (take i xs @ drop i xs)"
    by (rule set_append [symmetric])
  also have "\<dots> = set xs" by (simp only: append_take_drop_id)
  finally have u: "set (take i xs) \<union> set (drop i xs) = set xs" .
  have "set (list_insert i x xs) = insert x (set (take i xs) \<union> set (drop i xs))"
    unfolding list_insert_def by simp
  then show ?thesis by (simp only: u)
qed

lemma using_decl_no_CR: "CHR 0x0D \<notin> set using_decl"
  by (simp add: using_decl_def)

lemma inserted_no_CR:
  assumes "CHR 0x0D \<notin> set s"
  shows "CHR 0x0D \<notin> set (join_nl (list_insert k using_decl (split_nl s)))"
proof
  assume "CHR 0x0D \<in> set (join_nl (list_insert k using_decl (split_nl s)))"
  from set_join_nl [OF this]
  obtain l where "l \<in> set (list_insert k using_decl (split_nl s))" and c: "CHR 0x0D \<in> set l"
    by auto
  then have "l = using_decl \<or> l \<in> set (split_nl s)" by (simp add: set_list_insert)
  with c using_decl_no_CR set_split_nl assms show False by blast
qed

section \<open>The marked region and the flag of the loop\<close>

lemma in_region_at_marked:
  assumes "i < length ls" and "in_region_at ls i"
  shows "in_marked_region ls i"
proof -
  from assms(2) have "flag_after False (take i ls)" by (simp add: in_region_at_flag)
  from flag_after_opened [OF this] assms(1)
  obtain j where j: "j < i" "str_in region_start (ls ! j)"
    "\<forall>k. j < k \<and> k < i \<longrightarrow> \<not> str_in region_start (ls ! k) \<and> \<not> str_in region_end (ls ! k)"
    by auto
  then have "j \<in> {..i}" and "\<forall>k\<in>{j<..<i}. \<not> str_in region_end (ls ! k)" by simp_all
  with j(2) show ?thesis unfolding in_marked_region_def by blast
qed

section \<open>What one file does to the world\<close>

lemma read_text_Inr: "files w p = Inr raw \<Longrightarrow> read_text w p = Inr (universal_newlines raw)"
  by (simp add: read_text_def)

lemma read_text_Inl: "files w p = Inl e \<Longrightarrow> read_text w p = Inl e"
  by (simp add: read_text_def)

lemma write_file_ok:
  "\<not> read_only w p \<Longrightarrow> write_limit w p = None \<Longrightarrow> write_file w p s = (None, put w p s)"
  by (simp add: write_file_def)

lemma write_file_read_only: "read_only w p \<Longrightarrow> write_file w p s = (Some PermissionError, w)"
  by (simp add: write_file_def)

lemma write_file_truncated:
  "\<not> read_only w p \<Longrightarrow> write_limit w p = Some n \<Longrightarrow> n < length s \<Longrightarrow>
   write_file w p s = (Some OSError, put w p (take n s))"
  by (simp add: write_file_def)

lemma write_file_opened:
  "\<not> read_only w p \<Longrightarrow>
   snd (write_file w p s) = put w p (case write_limit w p of None \<Rightarrow> s | Some n \<Rightarrow> take n s)"
  by (simp add: write_file_def split: option.splits)

lemma write_file_shape:
  "\<exists>r w0. write_file w p s = (r, w0) \<and> (w0 = w \<or> (\<exists>t. w0 = put w p t))"
  by (auto simp: write_file_def split: option.splits)

lemma rewrite_indentation_read_error:
  "files w p = Inl e \<Longrightarrow> rewrite_indentation w p = (Some e, w)"
  by (simp add: rewrite_indentation_def read_text_def)

lemma rewrite_indentation_readable:
  "files w p = Inr raw \<Longrightarrow>
   rewrite_indentation w p = write_file w p (reindent_text (universal_newlines raw))"
  by (simp add: rewrite_indentation_def read_text_def reindent_text_def Let_def)

lemma rewrite_indentation_shape:
  "\<exists>r w0. rewrite_indentation w p = (r, w0) \<and> (w0 = w \<or> (\<exists>t. w0 = put w p t))"
proof (cases "files w p")
  case (Inl e)
  then show ?thesis by (simp add: rewrite_indentation_read_error)
next
  case (Inr raw)
  then show ?thesis by (simp add: rewrite_indentation_readable write_file_shape)
qed

lemma fix_indentation_file_shape:
  "\<exists>w0 x. fix_indentation_file w p = print_line w0 x \<and>
     (w0 = w \<or> (\<exists>t. w0 = put w p t)) \<and>
     (x = Fixed_indentation p \<or> (\<exists>e. x = Error_fixing p e))"
proof -
  from rewrite_indentation_shape [of w p] obtain r w0
    where r: "rewrite_indentation w p = (r, w0)" and w0: "w0 = w \<or> (\<exists>t. w0 = put w p t)"
    by blast
  show ?thesis
  proof (cases r)
    case None
    with r have "fix_indentation_file w p = print_line w0 (Fixed_indentation p)"
      by (simp add: fix_indentation_file_def)
    with w0 show ?thesis by blast
  next
    case (Some e)
    with r have "fix_indentation_file w p = print_line w0 (Error_fixing p e)"
      by (simp add: fix_indentation_file_def)
    with w0 show ?thesis by blast
  qed
qed

lemma fix_indentation_file_read_error:
  "files w p = Inl e \<Longrightarrow> fix_indentation_file w p = print_line w (Error_fixing p e)"
  by (simp add: fix_indentation_file_def rewrite_indentation_read_error)

lemma fix_indentation_file_read_only:
  "files w p = Inr raw \<Longrightarrow> read_only w p \<Longrightarrow>
   fix_indentation_file w p = print_line w (Error_fixing p PermissionError)"
  by (simp add: fix_indentation_file_def rewrite_indentation_readable write_file_read_only)

lemma fix_indentation_file_ok:
  "files w p = Inr raw \<Longrightarrow> \<not> read_only w p \<Longrightarrow> write_limit w p = None \<Longrightarrow>
   fix_indentation_file w p =
     print_line (put w p (reindent_text (universal_newlines raw))) (Fixed_indentation p)"
  by (simp add: fix_indentation_file_def rewrite_indentation_readable write_file_ok)

lemma fix_indentation_file_truncated:
  "files w p = Inr raw \<Longrightarrow> \<not> read_only w p \<Longrightarrow> write_limit w p = Some n \<Longrightarrow>
   n < length (reindent_text (universal_newlines raw)) \<Longrightarrow>
   fix_indentation_file w p =
     print_line (put w p (take n (reindent_text (universal_newlines raw)))) (Error_fixing p OSError)"
  by (simp add: fix_indentation_file_def rewrite_indentation_readable write_file_truncated)

lemma fix_indentation_file_opened:
  assumes "files w p = Inr raw" and "\<not> read_only w p"
  shows "\<exists>x. fix_indentation_file w p =
           print_line (put w p (case write_limit w p of
                                  None \<Rightarrow> reindent_text (universal_newlines raw)
                                | Some n \<Rightarrow> take n (reindent_text (universal_newlines raw)))) x"
proof -
  let ?R = "reindent_text (universal_newlines raw)"
  obtain r w0 where r: "write_file w p ?R = (r, w0)" by (cases "write_file w p ?R")
  with write_file_opened [OF assms(2), of ?R]
  have w0: "w0 = put w p (case write_limit w p of None \<Rightarrow> ?R | Some n \<Rightarrow> take n ?R)" by simp
  from r assms(1) have "fix_indentation_file w p =
      print_line w0 (case r of None \<Rightarrow> Fixed_indentation p | Some e \<Rightarrow> Error_fixing p e)"
    by (cases r) (simp_all add: fix_indentation_file_def rewrite_indentation_readable)
  then show ?thesis unfolding w0 by (rule exI)
qed

lemma files_print_line [simp]: "files (print_line w x) = files w"
  by (simp add: print_line_def)

lemma written_print_line [simp]: "written (print_line w x) = written w"
  by (simp add: print_line_def)

lemma console_print_line [simp]: "console (print_line w x) = console w @ [x]"
  by (simp add: print_line_def)

lemma files_put: "files (put w p s) = (files w)(p := Inr s)"
  by (simp add: put_def)

lemma written_put: "written (put w p s) = written w @ [p]"
  by (simp add: put_def)

lemma console_put [simp]: "console (put w p s) = console w"
  by (simp add: put_def)

lemma fix_indentation_file_frame:
  "q \<noteq> p \<Longrightarrow> files (fix_indentation_file w p) q = files w q"
  using fix_indentation_file_shape [of w p] by (auto simp: files_put)

lemma fix_indentation_file_console:
  "\<exists>x. console (fix_indentation_file w p) = console w @ [x] \<and>
       (x = Fixed_indentation p \<or> (\<exists>e. x = Error_fixing p e))"
  using fix_indentation_file_shape [of w p] by auto

lemma fix_indentation_file_keeps_error:
  assumes "files w q = Inl e"
  shows "files (fix_indentation_file w p) q = Inl e"
proof (cases "q = p")
  case True
  with assms show ?thesis by (simp add: fix_indentation_file_read_error)
next
  case False
  with assms show ?thesis by (simp add: fix_indentation_file_frame)
qed

lemma fix_indentation_files_keeps_error:
  "files w q = Inl e \<Longrightarrow> files (fix_indentation_files ps w) q = Inl e"
  unfolding fix_indentation_files_def
  by (induction ps arbitrary: w) (simp_all add: fix_indentation_file_keeps_error)

lemma fix_indentation_files_append:
  "fix_indentation_files (ps @ qs) w = fix_indentation_files qs (fix_indentation_files ps w)"
  by (simp add: fix_indentation_files_def)

lemma fix_indentation_files_Cons:
  "fix_indentation_files (p # ps) w = fix_indentation_files ps (fix_indentation_file w p)"
  by (simp add: fix_indentation_files_def)

lemma fix_indentation_files_snoc:
  "fix_indentation_files (ps @ [p]) w = fix_indentation_file (fix_indentation_files ps w) p"
  by (simp add: fix_indentation_files_def)

lemma fix_indentation_files_frame:
  "q \<notin> set ps \<Longrightarrow> files (fix_indentation_files ps w) q = files w q"
proof (induction ps arbitrary: w)
  case Nil
  then show ?case by (simp add: fix_indentation_files_def)
next
  case (Cons p ps)
  then have "q \<noteq> p" and "q \<notin> set ps" by simp_all
  with Cons.IH [of "fix_indentation_file w p"] show ?case
    by (simp add: fix_indentation_files_Cons fix_indentation_file_frame)
qed

lemma fix_indentation_files_console:
  "\<exists>xs. console (fix_indentation_files ps w) = console w @ xs \<and> length xs = length ps \<and>
     (\<forall>i<length ps. xs ! i = Fixed_indentation (ps ! i) \<or> (\<exists>e. xs ! i = Error_fixing (ps ! i) e))"
proof (induction ps rule: rev_induct)
  case Nil
  then show ?case by (simp add: fix_indentation_files_def)
next
  case (snoc p ps)
  then obtain xs where xs: "console (fix_indentation_files ps w) = console w @ xs"
    "length xs = length ps"
    "\<forall>i<length ps. xs ! i = Fixed_indentation (ps ! i) \<or> (\<exists>e. xs ! i = Error_fixing (ps ! i) e)"
    by blast
  from fix_indentation_file_console [of "fix_indentation_files ps w" p] obtain x
    where x: "console (fix_indentation_file (fix_indentation_files ps w) p) =
                console (fix_indentation_files ps w) @ [x]"
      "x = Fixed_indentation p \<or> (\<exists>e. x = Error_fixing p e)"
    by blast
  have c: "console (fix_indentation_files (ps @ [p]) w) = console w @ (xs @ [x])"
    by (simp add: fix_indentation_files_snoc x(1) xs(1))
  have l: "length (xs @ [x]) = length (ps @ [p])" by (simp add: xs(2))
  have "\<forall>i<length (ps @ [p]). (xs @ [x]) ! i = Fixed_indentation ((ps @ [p]) ! i) \<or>
          (\<exists>e. (xs @ [x]) ! i = Error_fixing ((ps @ [p]) ! i) e)"
  proof (intro allI impI)
    fix i assume i: "i < length (ps @ [p])"
    show "(xs @ [x]) ! i = Fixed_indentation ((ps @ [p]) ! i) \<or>
          (\<exists>e. (xs @ [x]) ! i = Error_fixing ((ps @ [p]) ! i) e)"
    proof (cases "i < length ps")
      case True
      with xs(2,3) show ?thesis by (simp add: nth_append)
    next
      case False
      with i have "i = length ps" by simp
      with xs(2) x(2) show ?thesis by (simp add: nth_append)
    qed
  qed
  with c l show ?case by blast
qed

section \<open>What the pattern counter does to the world\<close>

lemma fix_async_result:
  assumes "read_text w p = Inr content"
  shows "fix_async_method_without_await w p =
           (Inr (False, content),
            w\<lparr>console := console w @
                (if length (findall_async_Task content) > length (findall_await content)
                 then [Found_async_without_await
                         (length (findall_async_Task content) - length (findall_await content)) p]
                 else [])\<rparr>)"
  using assms
  by (simp add: fix_async_method_without_await_def print_line_def Let_def)

lemma deficit_findall:
  "deficit content =
     int (length (findall_async_Task content)) - int (length (findall_await content))"
  by (simp add: deficit_def findall_async_Task_spec findall_await_spec)

lemma report_deficit:
  "(if length (findall_async_Task content) > length (findall_await content)
    then [Found_async_without_await
            (length (findall_async_Task content) - length (findall_await content)) p]
    else []) =
   (if 0 < deficit content then [Found_async_without_await (nat (deficit content)) p] else [])"
  by (simp add: deficit_findall nat_diff_distrib')

lemma process_file_missing:
  "\<not> present w p \<Longrightarrow>
   process_file w p = (Inr False, w\<lparr>console := console w @ async_report w p\<rparr>)"
  by (simp add: process_file_def path_exists_def async_report_def print_line_def)

lemma process_file_readable:
  "present w p \<Longrightarrow> files w p = Inr raw \<Longrightarrow>
   process_file w p = (Inr False, w\<lparr>console := console w @ async_report w p\<rparr>)"
  by (simp add: process_file_def path_exists_def async_report_def
      fix_async_result [OF read_text_Inr] read_text_Inr)

lemma process_file_missing_or_readable:
  "\<not> present w p \<or> (\<exists>raw. files w p = Inr raw) \<Longrightarrow>
   process_file w p = (Inr False, w\<lparr>console := console w @ async_report w p\<rparr>)"
  using process_file_missing process_file_readable by blast

lemma process_file_unreadable:
  "present w p \<Longrightarrow> files w p = Inl e \<Longrightarrow> process_file w p = (Inl e, w)"
  by (simp add: process_file_def path_exists_def fix_async_method_without_await_def read_text_def)

lemma process_file_frame:
  "\<exists>r c. process_file w p = (r, w\<lparr>console := c\<rparr>) \<and> r \<noteq> Inr True"
proof (cases "\<not> present w p \<or> (\<exists>raw. files w p = Inr raw)")
  case True
  from process_file_missing_or_readable [OF this] show ?thesis by blast
next
  case False
  then obtain e where "present w p" "files w p = Inl e" by (cases "files w p") auto
  from process_file_unreadable [OF this] have "process_file w p = (Inl e, w\<lparr>console := console w\<rparr>)"
    by simp
  then show ?thesis by blast
qed

lemma async_report_console [simp]:
  "async_report (w\<lparr>console := c\<rparr>) p = async_report w p"
  by (simp add: async_report_def read_text_def)

lemma main_loop_all:
  assumes "\<forall>p\<in>set ps. \<not> present w p \<or> (\<exists>raw. files w p = Inr raw)"
  shows "main_loop w n ps =
           (Inr n, w\<lparr>console := console w @ concat (map (async_report w) ps)\<rparr>)"
  using assms
proof (induction ps arbitrary: w)
  case Nil
  then show ?case by simp
next
  case (Cons p ps)
  let ?w' = "w\<lparr>console := console w @ async_report w p\<rparr>"
  from Cons.prems have "\<not> present w p \<or> (\<exists>raw. files w p = Inr raw)" by simp
  then have pf: "process_file w p = (Inr False, ?w')" by (rule process_file_missing_or_readable)
  from Cons.prems
  have "\<forall>q\<in>set ps. \<not> present ?w' q \<or> (\<exists>raw. files ?w' q = Inr raw)"
    by simp
  from Cons.IH [OF this]
  have "main_loop ?w' n ps =
        (Inr n, w\<lparr>console := console w @ concat (map (async_report w) (p # ps))\<rparr>)"
    by simp
  with pf show ?case by simp
qed

section \<open>What the injector does to the world\<close>

lemma check_no_anchor:
  assumes "read_text w p = Inr content" and "\<not> str_in using_decl content"
    and "\<forall>line\<in>set (split_nl content). \<not> is_using_line line"
  shows "check_and_add_using w p = (Inr False, w)"
  using assms by (simp add: check_and_add_using_def Let_def last_using_loop_none)

lemma check_present:
  assumes "read_text w p = Inr content" and "str_in using_decl content"
  shows "check_and_add_using w p = (Inr False, w)"
  using assms by (simp add: check_and_add_using_def)

lemma check_inserts:
  assumes "read_text w p = Inr content" and "\<not> read_only w p" and "write_limit w p = None"
    and "\<not> str_in using_decl content"
    and "\<exists>line\<in>set (split_nl content). is_using_line line"
  shows "check_and_add_using w p =
           (Inr True,
            print_line
              (put w p (join_nl (list_insert
                          (nat (last_using_loop (- 1) (enumerate 0 (split_nl content)) + 1))
                          using_decl (split_nl content))))
              (Added_using p))"
proof -
  from assms(5) have "0 \<le> last_using_loop (- 1) (enumerate 0 (split_nl content))"
    by (rule last_using_loop_nonneg)
  with assms(1-4) show ?thesis
    by (simp add: check_and_add_using_def Let_def write_file_ok)
qed

lemma read_text_no_CR: "read_text w p = Inr content \<Longrightarrow> CHR 0x0D \<notin> set content"
  by (auto simp: read_text_def universal_newlines_no_CR split: sum.splits)

lemma read_text_put: "CHR 0x0D \<notin> set s \<Longrightarrow> read_text (put w p s) p = Inr s"
  by (simp add: read_text_def files_put universal_newlines_id)

lemma read_text_print_line [simp]: "read_text (print_line w x) p = read_text w p"
  by (simp add: read_text_def)

lemma read_text_with_file:
  "CHR 0x0D \<notin> set s \<Longrightarrow> read_text (with_file w p s) p = Inr s"
  by (simp add: read_text_def with_file_def universal_newlines_id)

section \<open>The claims\<close>

text \<open>
  C1. The reindenter is idempotent: on every document text, the whole pass (reading the
  lines, the marker scan with the indentation rule, writing the lines) applied twice
  gives exactly the text it gives applied once. The second pass meets the same marker
  lines, and every line the first pass moved now starts with eight spaces.
\<close>

theorem reindent_idempotent: "reindent_text (reindent_text text) = reindent_text text"
proof -
  have "reindent_text (reindent_text text) =
          writelines (fix_lines (readlines (reindent_text text)))"
    by (simp add: reindent_text_def)
  also have "\<dots> = writelines (fix_lines (fix_lines (readlines text)))"
    by (simp only: readlines_reindent_text)
  also have "\<dots> = reindent_text text"
    by (simp only: fix_lines_idem reindent_text_def)
  finally show ?thesis .
qed

theorem reindent_idempotent_witness:
  "reindent_text (reindent_text
      ''#region IInterpretableModel Implementation\<newline>    oldLine();\<newline>#endregion\<newline>'') =
   ''#region IInterpretableModel Implementation\<newline>        oldLine();\<newline>#endregion\<newline>''"
proof -
  have "reindent_text
      ''#region IInterpretableModel Implementation\<newline>    oldLine();\<newline>#endregion\<newline>'' =
   ''#region IInterpretableModel Implementation\<newline>        oldLine();\<newline>#endregion\<newline>''"
    by code_simp
  with reindent_idempotent
    [of "''#region IInterpretableModel Implementation\<newline>    oldLine();\<newline>#endregion\<newline>''"]
  show ?thesis by simp
qed

text \<open>
  C2. \<open>fix_async_method_without_await\<close> only detects. Whenever the file can be read, it
  returns the flag \<open>False\<close> and the very text it read; it leaves every file, the answers
  of \<open>os.path.exists\<close> and the list of writes as they were; and when the deficit, counted
  on the documented matches of the two patterns, is positive, it prints the one line that
  reports it.
\<close>

theorem detect_only:
  assumes "read_text w file_path = Inr content"
  shows "\<exists>w'. fix_async_method_without_await w file_path = (Inr (False, content), w') \<and>
           files w' = files w \<and> present w' = present w \<and> written w' = written w \<and>
           (0 < deficit content \<longrightarrow>
              console w' = console w @
                [Found_async_without_await (nat (deficit content)) file_path])"
proof -
  let ?w' = "w\<lparr>console := console w @
                (if 0 < deficit content
                 then [Found_async_without_await (nat (deficit content)) file_path] else [])\<rparr>"
  have "fix_async_method_without_await w file_path = (Inr (False, content), ?w')"
    by (simp only: fix_async_result [OF assms] report_deficit)
  then show ?thesis by (intro exI [of _ ?w']) simp
qed

theorem detect_only_witness:
  "\<exists>w'. fix_async_method_without_await
          (with_file no_files ''A.cs'' ''async Task A() { await x; } async Task B() { }'') ''A.cs''
        = (Inr (False, ''async Task A() { await x; } async Task B() { }''), w') \<and>
        files w' ''A.cs'' = Inr ''async Task A() { await x; } async Task B() { }'' \<and>
        written w' = [] \<and> console w' = [Found_async_without_await 1 ''A.cs'']"
proof -
  let ?t = "''async Task A() { await x; } async Task B() { }''"
  let ?w = "with_file no_files ''A.cs'' ?t"
  have f: "read_text ?w ''A.cs'' = Inr ?t" by (rule read_text_with_file) simp
  have d: "deficit ?t = 1" by code_simp
  have w0: "written ?w = []" "console ?w = []" "files ?w ''A.cs'' = Inr ?t"
    by (simp_all add: with_file_def no_files_def)
  from detect_only [OF f] obtain w' where
    "fix_async_method_without_await ?w ''A.cs'' = (Inr (False, ?t), w')"
    "files w' = files ?w" "written w' = written ?w"
    "0 < deficit ?t \<longrightarrow>
       console w' = console ?w @ [Found_async_without_await (nat (deficit ?t)) ''A.cs'']"
    by blast
  with d w0 show ?thesis by simp
qed

text \<open>
  C3, as the code has it. The batch reindenter writes back every file it could read and
  open for writing, with the reindented text (as much of it as can be written), whether
  or not that text differs from the one read. \<open>process_file\<close> of the pattern counter
  writes only under its \<open>changed\<close> flag, which is never set: it never returns \<open>True\<close>,
  writes nothing and leaves every file as it was.
\<close>

theorem write_back_rule:
  "(\<forall>raw. files w p = Inr raw \<and> \<not> read_only w p \<longrightarrow>
       written (fix_indentation_file w p) = written w @ [p] \<and>
       files (fix_indentation_file w p) p =
         Inr (case write_limit w p of
                None \<Rightarrow> reindent_text (universal_newlines raw)
              | Some n \<Rightarrow> take n (reindent_text (universal_newlines raw)))) \<and>
   (\<forall>r w'. process_file w p = (r, w') \<longrightarrow>
       r \<noteq> Inr True \<and> written w' = written w \<and> files w' = files w)"
proof (intro conjI allI impI)
  fix raw assume a: "files w p = Inr raw \<and> \<not> read_only w p"
  then have "files w p = Inr raw" and "\<not> read_only w p" by simp_all
  from fix_indentation_file_opened [OF this] obtain x where
    "fix_indentation_file w p =
       print_line (put w p (case write_limit w p of
                              None \<Rightarrow> reindent_text (universal_newlines raw)
                            | Some n \<Rightarrow> take n (reindent_text (universal_newlines raw)))) x"
    by blast
  then show "written (fix_indentation_file w p) = written w @ [p]"
    and "files (fix_indentation_file w p) p =
         Inr (case write_limit w p of
                None \<Rightarrow> reindent_text (universal_newlines raw)
              | Some n \<Rightarrow> take n (reindent_text (universal_newlines raw)))"
    by (simp_all add: written_put files_put)
next
  fix r w' assume pf: "process_file w p = (r, w')"
  from process_file_frame [of w p] obtain r0 c where
    "process_file w p = (r0, w\<lparr>console := c\<rparr>)" and "r0 \<noteq> Inr True" by blast
  with pf have "r \<noteq> Inr True \<and> w' = w\<lparr>console := c\<rparr>" by simp
  then show "r \<noteq> Inr True" and "written w' = written w" and "files w' = files w" by simp_all
qed

theorem write_back_rule_witness:
  "written (fix_indentation_file
      (with_file no_files ''a.cs'' ''#region IInterpretableModel Implementation\<newline>    x\<newline>'')
      ''a.cs'') = [''a.cs''] \<and>
   files (fix_indentation_file
      (with_file no_files ''a.cs'' ''#region IInterpretableModel Implementation\<newline>    x\<newline>'')
      ''a.cs'') ''a.cs'' = Inr ''#region IInterpretableModel Implementation\<newline>        x\<newline>'' \<and>
   fst (process_file
      (with_file no_files ''a.cs'' ''#region IInterpretableModel Implementation\<newline>    x\<newline>'')
      ''a.cs'') \<noteq> Inr True \<and>
   written (snd (process_file
      (with_file no_files ''a.cs'' ''#region IInterpretableModel Implementation\<newline>    x\<newline>'')
      ''a.cs'')) = []"
proof -
  let ?t = "''#region IInterpretableModel Implementation\<newline>    x\<newline>''"
  let ?w = "with_file no_files ''a.cs'' ?t"
  have f: "files ?w ''a.cs'' = Inr ?t \<and> \<not> read_only ?w ''a.cs''"
    by (simp add: with_file_def no_files_def)
  have l: "write_limit ?w ''a.cs'' = None" by (simp add: with_file_def no_files_def)
  have u: "universal_newlines ?t = ?t" by (rule universal_newlines_id) simp
  have r: "reindent_text ?t = ''#region IInterpretableModel Implementation\<newline>        x\<newline>''"
    by code_simp
  have w0: "written ?w = []" by (simp add: with_file_def no_files_def)
  have pf: "process_file ?w ''a.cs'' =
      (fst (process_file ?w ''a.cs''), snd (process_file ?w ''a.cs''))"
    by simp
  note rule = write_back_rule [of ?w "''a.cs''"]
  from rule f have a: "written (fix_indentation_file ?w ''a.cs'') = written ?w @ [''a.cs''] \<and>
       files (fix_indentation_file ?w ''a.cs'') ''a.cs'' =
         Inr (case write_limit ?w ''a.cs'' of
                None \<Rightarrow> reindent_text (universal_newlines ?t)
              | Some n \<Rightarrow> take n (reindent_text (universal_newlines ?t)))"
    by blast
  from rule pf have b: "fst (process_file ?w ''a.cs'') \<noteq> Inr True \<and>
      written (snd (process_file ?w ''a.cs'')) = written ?w"
    by blast
  from a b show ?thesis by (simp add: r w0 l u)
qed

text \<open>
  C3 as the spec words it fails: a file without any region is read, comes out of the loop
  with the same text, and is written all the same.
\<close>

theorem write_back_counterexample:
  "files (with_file no_files ''a.cs'' ''class A { }\<newline>'') ''a.cs'' = Inr ''class A { }\<newline>'' \<and>
   files (fix_indentation_files [''a.cs''] (with_file no_files ''a.cs'' ''class A { }\<newline>'')) ''a.cs''
     = Inr ''class A { }\<newline>'' \<and>
   written (fix_indentation_files [''a.cs''] (with_file no_files ''a.cs'' ''class A { }\<newline>''))
     = [''a.cs'']"
proof -
  let ?w = "with_file no_files ''a.cs'' ''class A { }\<newline>''"
  have f: "files ?w ''a.cs'' = Inr ''class A { }\<newline>''" and ro: "\<not> read_only ?w ''a.cs''"
    and l: "write_limit ?w ''a.cs'' = None" and w0: "written ?w = []"
    by (simp_all add: with_file_def no_files_def)
  have u: "universal_newlines ''class A { }\<newline>'' = ''class A { }\<newline>''"
    by (rule universal_newlines_id) simp
  have r: "reindent_text ''class A { }\<newline>'' = ''class A { }\<newline>''" by code_simp
  show ?thesis
    by (simp add: fix_indentation_files_def fix_indentation_file_ok [OF f ro l] r u w0 f
        files_put written_put)
qed

text \<open>
  C4, as the code has it. On a file that can be read and written: when the declaration
  already stands in the text, two calls leave the world as it was; when it does not and
  the text has an anchor line, the first call inserts it and returns \<open>True\<close>, the second
  returns \<open>False\<close> and changes nothing, and the declaration then occurs exactly once in
  the file.
\<close>

theorem injector_idempotent:
  assumes "read_text w p = Inr content" and "\<not> read_only w p" and "write_limit w p = None"
  shows "(str_in using_decl content \<longrightarrow> inject_twice w p = (Inr False, w)) \<and>
         (\<not> str_in using_decl content \<and> (\<exists>line\<in>set (split_nl content). is_using_line line) \<longrightarrow>
            (\<exists>w1 final. check_and_add_using w p = (Inr True, w1) \<and>
                 check_and_add_using w1 p = (Inr False, w1) \<and>
                 inject_twice w p = (Inr False, w1) \<and>
                 files w1 p = Inr final \<and> occurrences using_decl final = 1))"
proof (intro conjI impI)
  assume "str_in using_decl content"
  with assms(1) have "check_and_add_using w p = (Inr False, w)" by (rule check_present)
  then show "inject_twice w p = (Inr False, w)" by (simp add: inject_twice_def)
next
  assume a: "\<not> str_in using_decl content \<and> (\<exists>line\<in>set (split_nl content). is_using_line line)"
  define k where "k = nat (last_using_loop (- 1) (enumerate 0 (split_nl content)) + 1)"
  let ?final = "join_nl (list_insert k using_decl (split_nl content))"
  let ?w1 = "print_line (put w p ?final) (Added_using p)"
  from a check_inserts [OF assms]
  have first: "check_and_add_using w p = (Inr True, ?w1)"
    unfolding k_def by blast
  from a have "occurrences using_decl content = 0" by (simp add: str_in_iff_occurrences)
  moreover have "occurrences using_decl ?final =
        occurrences using_decl content + occurrences using_decl using_decl"
    using using_decl_no_newline by (intro occurrences_insert) simp_all
  ultimately have one: "occurrences using_decl ?final = 1"
    by (simp add: occurrences_using_decl_self)
  then have there: "str_in using_decl ?final" by (simp add: str_in_iff_occurrences)
  from assms(1) have "CHR 0x0D \<notin> set content" by (rule read_text_no_CR)
  then have "CHR 0x0D \<notin> set ?final" by (rule inserted_no_CR)
  then have "read_text ?w1 p = Inr ?final" by (simp add: read_text_put)
  from this there have second: "check_and_add_using ?w1 p = (Inr False, ?w1)"
    by (rule check_present)
  have f1: "files ?w1 p = Inr ?final" by (simp add: files_put)
  from first second have "inject_twice w p = (Inr False, ?w1)" by (simp add: inject_twice_def)
  with first second f1 one
  show "\<exists>w1 final. check_and_add_using w p = (Inr True, w1) \<and>
                 check_and_add_using w1 p = (Inr False, w1) \<and>
                 inject_twice w p = (Inr False, w1) \<and>
                 files w1 p = Inr final \<and> occurrences using_decl final = 1"
    by blast
qed

theorem injector_idempotent_witness:
  "(\<exists>w1 final. inject_twice
        (with_file no_files ''a.cs'' ''using System;\<newline>namespace X { }\<newline>'') ''a.cs''
          = (Inr False, w1) \<and>
      files w1 ''a.cs'' = Inr final \<and> occurrences using_decl final = 1) \<and>
   files (snd (inject_twice
        (with_file no_files ''a.cs'' ''using System;\<newline>namespace X { }\<newline>'') ''a.cs'')) ''a.cs''
      = Inr ''using System;\<newline>using AiDotNet.Interpretability;\<newline>namespace X { }\<newline>'' \<and>
   inject_twice
        (with_file no_files ''b.cs'' ''using AiDotNet.Interpretability;\<newline>class B { }\<newline>'') ''b.cs''
      = (Inr False,
         with_file no_files ''b.cs'' ''using AiDotNet.Interpretability;\<newline>class B { }\<newline>'')"
proof -
  let ?t = "''using System;\<newline>namespace X { }\<newline>''"
  let ?w = "with_file no_files ''a.cs'' ?t"
  let ?s = "''using AiDotNet.Interpretability;\<newline>class B { }\<newline>''"
  let ?v = "with_file no_files ''b.cs'' ?s"
  have f: "read_text ?w ''a.cs'' = Inr ?t" by (rule read_text_with_file) simp
  have ro: "\<not> read_only ?w ''a.cs''" and l: "write_limit ?w ''a.cs'' = None"
    by (simp_all add: with_file_def no_files_def)
  have d: "\<not> str_in using_decl ?t" by code_simp
  have a: "\<exists>line\<in>set (split_nl ?t). is_using_line line" by code_simp
  from injector_idempotent [OF f ro l] d a
  have one: "\<exists>w1 final. inject_twice ?w ''a.cs'' = (Inr False, w1) \<and>
      files w1 ''a.cs'' = Inr final \<and> occurrences using_decl final = 1"
    by blast
  have two: "files (snd (inject_twice ?w ''a.cs'')) ''a.cs'' =
        Inr ''using System;\<newline>using AiDotNet.Interpretability;\<newline>namespace X { }\<newline>''"
    by code_simp
  have g: "read_text ?v ''b.cs'' = Inr ?s" by (rule read_text_with_file) simp
  have ro': "\<not> read_only ?v ''b.cs''" and l': "write_limit ?v ''b.cs'' = None"
    by (simp_all add: with_file_def no_files_def)
  have d': "str_in using_decl ?s" by code_simp
  from injector_idempotent [OF g ro' l'] d'
  have three: "inject_twice ?v ''b.cs'' = (Inr False, ?v)" by blast
  from one two three show ?thesis by blast
qed

text \<open>
  C4 as the spec words it fails: in a document with no anchor line two calls insert
  nothing, and the declaration occurs zero times.
\<close>

theorem injector_idempotent_counterexample:
  "inject_twice (with_file no_files ''a.cs'' ''namespace X { }\<newline>'') ''a.cs''
     = (Inr False, with_file no_files ''a.cs'' ''namespace X { }\<newline>'') \<and>
   files (with_file no_files ''a.cs'' ''namespace X { }\<newline>'') ''a.cs''
     = Inr ''namespace X { }\<newline>'' \<and>
   occurrences using_decl ''namespace X { }\<newline>'' = 0"
proof -
  let ?t = "''namespace X { }\<newline>''"
  let ?w = "with_file no_files ''a.cs'' ?t"
  have f: "files ?w ''a.cs'' = Inr ?t" by (simp add: with_file_def)
  have rt: "read_text ?w ''a.cs'' = Inr ?t" by (rule read_text_with_file) simp
  have d: "\<not> str_in using_decl ?t" by code_simp
  have a: "\<forall>line\<in>set (split_nl ?t). \<not> is_using_line line" by code_simp
  have "check_and_add_using ?w ''a.cs'' = (Inr False, ?w)"
    using rt d a by (rule check_no_anchor)
  then have "inject_twice ?w ''a.cs'' = (Inr False, ?w)" by (simp add: inject_twice_def)
  moreover have "occurrences using_decl ?t = 0" by code_simp
  ultimately show ?thesis using f by simp
qed

text \<open>
  C5, as the code has it. A line that the loop reaches with \<open>in_region\<close> set and that holds
  neither marker gets four spaces prepended if and only if it starts with four spaces and
  does not start with eight, that is, its run of leading spaces is 4 to 7 long; every
  other such line is emitted as it is.
\<close>

theorem indent_rule:
  assumes "i < length ls" and "in_region_at ls i"
    and "\<not> str_in region_start (ls ! i)" and "\<not> str_in region_end (ls ! i)"
  shows "fix_lines ls ! i =
           (if 4 \<le> leading_spaces (ls ! i) \<and> leading_spaces (ls ! i) < 8
            then indent4 @ ls ! i else ls ! i)"
  using assms
  by (simp add: fix_lines_nth emit_inside startswith_indent4_iff startswith_indent8_iff not_le)

theorem indent_rule_witness:
  "fix_lines [''#region IInterpretableModel Implementation\<newline>'', ''    oldLine();\<newline>'',
              ''#endregion\<newline>''] ! 1 = ''        oldLine();\<newline>''"
proof -
  let ?ls = "[''#region IInterpretableModel Implementation\<newline>'', ''    oldLine();\<newline>'',
              ''#endregion\<newline>'']"
  have h1: "1 < length ?ls" by simp
  have h2: "in_region_at ?ls 1" by code_simp
  have h3: "\<not> str_in region_start (?ls ! 1)" by code_simp
  have h4: "\<not> str_in region_end (?ls ! 1)" by code_simp
  have h5: "leading_spaces (?ls ! 1) = 4" by code_simp
  from indent_rule [OF h1 h2 h3 h4] h5 show ?thesis by (simp add: indent4_def)
qed

text \<open>
  C5 as the spec words it fails: a line inside the region with five leading spaces has a
  leading whitespace run that is not four characters long, and still gets four spaces
  prepended.
\<close>

theorem indent_rule_counterexample:
  "in_region_at [''#region IInterpretableModel Implementation\<newline>'', ''     x\<newline>''] 1 \<and>
   length (takeWhile is_space ''     x\<newline>'') = 5 \<and>
   \<not> (fix_lines [''#region IInterpretableModel Implementation\<newline>'', ''     x\<newline>''] ! 1
          = indent4 @ ''     x\<newline>''
        \<longleftrightarrow> length (takeWhile is_space ''     x\<newline>'') = 4)"
  by code_simp

text \<open>
  C6 as the spec words it fails: a file whose lines end in carriage return and line feed
  is read in text mode, which turns each such ending into a line feed, and written with
  line feeds. A line of a file with no region at all does not come out with the bytes it
  had.
\<close>

theorem outside_region_counterexample:
  "\<not> in_marked_region (readlines (''class A { }'' @ [CHR 0x0D, CHR ''\<newline>''])) 0 \<and>
   readlines (''class A { }'' @ [CHR 0x0D, CHR ''\<newline>''])
     = [''class A { }'' @ [CHR 0x0D, CHR ''\<newline>'']] \<and>
   files (fix_indentation_file
            (with_file no_files ''a.cs'' (''class A { }'' @ [CHR 0x0D, CHR ''\<newline>'']))
            ''a.cs'') ''a.cs''
     = Inr ''class A { }\<newline>'' \<and>
   ''class A { }\<newline>'' \<noteq> ''class A { }'' @ [CHR 0x0D, CHR ''\<newline>'']"
proof -
  let ?raw = "''class A { }'' @ [CHR 0x0D, CHR ''\<newline>'']"
  let ?w = "with_file no_files ''a.cs'' ?raw"
  have f: "files ?w ''a.cs'' = Inr ?raw" and ro: "\<not> read_only ?w ''a.cs''"
    and l: "write_limit ?w ''a.cs'' = None"
    by (simp_all add: with_file_def no_files_def)
  have u: "universal_newlines ?raw = ''class A { }\<newline>''" by simp
  have r: "reindent_text ''class A { }\<newline>'' = ''class A { }\<newline>''" by code_simp
  have a: "\<not> in_marked_region (readlines ?raw) 0" by code_simp
  have b: "readlines ?raw = [?raw]" by simp
  have c: "files (fix_indentation_file ?w ''a.cs'') ''a.cs'' = Inr ''class A { }\<newline>''"
    by (simp only: fix_indentation_file_ok [OF f ro l] u r files_print_line files_put fun_upd_same)
  have d: "''class A { }\<newline>'' \<noteq> ?raw" by simp
  from a b c d show ?thesis by blast
qed

text \<open>
  C6, as the code has it. A line outside every marked region comes out as the line that
  text mode read: when the file can be read and written, the file written has as many
  lines as the text read, and its line \<open>i\<close> is line \<open>i\<close> of the text read whenever that
  line is in no marked region. It is the line of the file as stored, byte for byte, when
  the file holds no carriage return.
\<close>

theorem outside_region_verbatim:
  assumes "files w p = Inr raw" and "\<not> read_only w p" and "write_limit w p = None"
    and "i < length (readlines (universal_newlines raw))"
    and "\<not> in_marked_region (readlines (universal_newlines raw)) i"
  shows "\<exists>w' out. rewrite_indentation w p = (None, w') \<and> files w' p = Inr out \<and>
           length (readlines out) = length (readlines (universal_newlines raw)) \<and>
           readlines out ! i = readlines (universal_newlines raw) ! i \<and>
           (CHR 0x0D \<notin> set raw \<longrightarrow> readlines out ! i = readlines raw ! i)"
proof -
  let ?u = "universal_newlines raw"
  let ?out = "reindent_text ?u"
  have rw: "rewrite_indentation w p = (None, put w p ?out)"
    by (simp only: rewrite_indentation_readable [OF assms(1)] write_file_ok [OF assms(2,3)])
  have f: "files (put w p ?out) p = Inr ?out" by (simp add: files_put)
  have len: "length (readlines ?out) = length (readlines ?u)"
    by (simp add: readlines_reindent_text)
  from assms(4,5) have "\<not> in_region_at (readlines ?u) i"
    using in_region_at_marked by blast
  with assms(4) have line: "readlines ?out ! i = readlines ?u ! i"
    by (simp add: readlines_reindent_text fix_lines_nth emit_outside)
  have "CHR 0x0D \<notin> set raw \<longrightarrow> readlines ?out ! i = readlines raw ! i"
  proof
    assume "CHR 0x0D \<notin> set raw"
    then have "?u = raw" by (rule universal_newlines_id)
    with line show "readlines ?out ! i = readlines raw ! i" by simp
  qed
  with rw f len line show ?thesis by blast
qed

theorem outside_region_verbatim_witness:
  "\<exists>w' out. rewrite_indentation
       (with_file no_files ''a.cs''
          ''    a\<newline>#region IInterpretableModel Implementation\<newline>    b\<newline>#endregion\<newline>    c\<newline>'')
       ''a.cs'' = (None, w') \<and>
     files w' ''a.cs'' = Inr out \<and> length (readlines out) = 5 \<and>
     readlines out ! 4 = ''    c\<newline>''"
proof -
  let ?t = "''    a\<newline>#region IInterpretableModel Implementation\<newline>    b\<newline>#endregion\<newline>    c\<newline>''"
  let ?w = "with_file no_files ''a.cs'' ?t"
  have f: "files ?w ''a.cs'' = Inr ?t" and ro: "\<not> read_only ?w ''a.cs''"
    and l: "write_limit ?w ''a.cs'' = None"
    by (simp_all add: with_file_def no_files_def)
  have cr: "CHR 0x0D \<notin> set ?t" by simp
  then have u: "universal_newlines ?t = ?t" by (rule universal_newlines_id)
  have h0: "length (readlines ?t) = 5" by code_simp
  have h1: "4 < length (readlines (universal_newlines ?t))" by (simp only: u h0)
  have h2': "\<not> in_marked_region (readlines ?t) 4" by code_simp
  have h2: "\<not> in_marked_region (readlines (universal_newlines ?t)) 4"
    unfolding u by (rule h2')
  have h3: "readlines ?t ! 4 = ''    c\<newline>''" by code_simp
  from outside_region_verbatim [OF f ro l h1 h2] obtain w' out where
    "rewrite_indentation ?w ''a.cs'' = (None, w')" "files w' ''a.cs'' = Inr out"
    "length (readlines out) = length (readlines (universal_newlines ?t))"
    "CHR 0x0D \<notin> set ?t \<longrightarrow> readlines out ! 4 = readlines ?t ! 4"
    by blast
  with cr h0 h3 u have "rewrite_indentation ?w ''a.cs'' = (None, w') \<and>
     files w' ''a.cs'' = Inr out \<and> length (readlines out) = 5 \<and>
     readlines out ! 4 = ''    c\<newline>''"
    by simp
  then show ?thesis by blast
qed

text \<open>
  C7, as the code has it. In the batch reindenter whatever a file raises inside the \<open>try\<close>
  is caught, printed as one error line for that file, and the files after it are
  processed: a file that cannot be read is left as it is; a file that cannot be opened
  for writing is left as it is; a write that fails part-way leaves that file cut short.
  No other file is touched, and every file of the list prints exactly one line, in the
  order of the list. The script keeps no total and no count. In the pattern counter, when
  every path of the list is missing or readable, the run ends with \<open>fixed_count = 0\<close>, a
  \<open>File not found\<close> line for each missing path, the report of each readable file, and no
  file changed.
\<close>

theorem batch_isolation:
  "(files w p = Inl e \<longrightarrow>
      fix_indentation_files (ps @ p # qs) w =
        fix_indentation_files qs (print_line (fix_indentation_files ps w) (Error_fixing p e))) \<and>
   (files w p = Inr raw \<and> read_only w p \<longrightarrow>
      fix_indentation_files (p # qs) w =
        fix_indentation_files qs (print_line w (Error_fixing p PermissionError))) \<and>
   (files w p = Inr raw \<and> \<not> read_only w p \<and> write_limit w p = Some n \<and>
    n < length (reindent_text (universal_newlines raw)) \<longrightarrow>
      fix_indentation_files (p # qs) w =
        fix_indentation_files qs
          (print_line (put w p (take n (reindent_text (universal_newlines raw))))
             (Error_fixing p OSError))) \<and>
   (\<forall>q. q \<notin> set ps \<longrightarrow> files (fix_indentation_files ps w) q = files w q) \<and>
   (\<exists>xs. console (fix_indentation_files ps w) = console w @ xs \<and> length xs = length ps \<and>
      (\<forall>i<length ps.
         xs ! i = Fixed_indentation (ps ! i) \<or> (\<exists>e. xs ! i = Error_fixing (ps ! i) e))) \<and>
   ((\<forall>q\<in>set ps. \<not> present w q \<or> (\<exists>content. files w q = Inr content)) \<longrightarrow>
      main_on ps w =
        (Inr 0, w\<lparr>console :=
                    console w @ concat (map (async_report w) ps) @ [Fixed_files 0]\<rparr>))"
proof (intro conjI impI allI)
  assume "files w p = Inl e"
  then have "files (fix_indentation_files ps w) p = Inl e"
    by (rule fix_indentation_files_keeps_error)
  then have "fix_indentation_file (fix_indentation_files ps w) p =
             print_line (fix_indentation_files ps w) (Error_fixing p e)"
    by (rule fix_indentation_file_read_error)
  then show "fix_indentation_files (ps @ p # qs) w =
        fix_indentation_files qs (print_line (fix_indentation_files ps w) (Error_fixing p e))"
    by (simp add: fix_indentation_files_append fix_indentation_files_Cons)
next
  assume "files w p = Inr raw \<and> read_only w p"
  then have "fix_indentation_file w p = print_line w (Error_fixing p PermissionError)"
    using fix_indentation_file_read_only by blast
  then show "fix_indentation_files (p # qs) w =
        fix_indentation_files qs (print_line w (Error_fixing p PermissionError))"
    by (simp add: fix_indentation_files_Cons)
next
  assume "files w p = Inr raw \<and> \<not> read_only w p \<and> write_limit w p = Some n \<and>
    n < length (reindent_text (universal_newlines raw))"
  then have "fix_indentation_file w p =
      print_line (put w p (take n (reindent_text (universal_newlines raw))))
        (Error_fixing p OSError)"
    using fix_indentation_file_truncated by blast
  then show "fix_indentation_files (p # qs) w =
        fix_indentation_files qs
          (print_line (put w p (take n (reindent_text (universal_newlines raw))))
             (Error_fixing p OSError))"
    by (simp add: fix_indentation_files_Cons)
next
  fix q assume "q \<notin> set ps"
  then show "files (fix_indentation_files ps w) q = files w q"
    by (rule fix_indentation_files_frame)
next
  show "\<exists>xs. console (fix_indentation_files ps w) = console w @ xs \<and> length xs = length ps \<and>
      (\<forall>i<length ps.
         xs ! i = Fixed_indentation (ps ! i) \<or> (\<exists>e. xs ! i = Error_fixing (ps ! i) e))"
    by (rule fix_indentation_files_console)
next
  assume "\<forall>q\<in>set ps. \<not> present w q \<or> (\<exists>content. files w q = Inr content)"
  from main_loop_all [OF this, of 0]
  show "main_on ps w =
        (Inr 0, w\<lparr>console :=
                    console w @ concat (map (async_report w) ps) @ [Fixed_files 0]\<rparr>)"
    by (simp add: main_on_def print_line_def)
qed

theorem batch_isolation_witness:
  "console (fix_indentation_files [''a.cs'', ''b.cs'', ''c.cs'']
      (with_file (with_file no_files ''a.cs'' ''class A { }\<newline>'') ''c.cs'' ''class C { }\<newline>''))
     = [Fixed_indentation ''a.cs'', Error_fixing ''b.cs'' FileNotFoundError,
        Fixed_indentation ''c.cs''] \<and>
   files (fix_indentation_files [''a.cs'', ''b.cs'']
      (with_file (with_file no_files ''a.cs'' ''class A { }\<newline>'') ''c.cs'' ''class C { }\<newline>''))
      ''c.cs'' = Inr ''class C { }\<newline>'' \<and>
   console (fix_indentation_files [''a.cs'', ''c.cs'']
      ((with_file (with_file no_files ''a.cs'' ''class A { }\<newline>'') ''c.cs'' ''class C { }\<newline>'')
         \<lparr>read_only := (\<lambda>p. p = ''a.cs'')\<rparr>))
     = [Error_fixing ''a.cs'' PermissionError, Fixed_indentation ''c.cs''] \<and>
   console (fix_indentation_files [''a.cs'', ''c.cs'']
      (with_write_limit
         (with_file (with_file no_files ''a.cs'' ''class A { }\<newline>'') ''c.cs'' ''class C { }\<newline>'')
         ''a.cs'' 5))
     = [Error_fixing ''a.cs'' OSError, Fixed_indentation ''c.cs''] \<and>
   files (fix_indentation_files [''a.cs'', ''c.cs'']
      (with_write_limit
         (with_file (with_file no_files ''a.cs'' ''class A { }\<newline>'') ''c.cs'' ''class C { }\<newline>'')
         ''a.cs'' 5)) ''a.cs''
     = Inr ''class'' \<and>
   (\<exists>w'. main_on [''a.cs'', ''b.cs'', ''c.cs'']
      (with_file (with_file no_files ''a.cs'' ''class A { }\<newline>'') ''c.cs'' ''class C { }\<newline>'')
       = (Inr 0, w') \<and> console w' = [File_not_found ''b.cs'', Fixed_files 0])"
proof -
  let ?a = "''class A { }\<newline>''"
  let ?w = "with_file (with_file no_files ''a.cs'' ?a) ''c.cs'' ''class C { }\<newline>''"
  let ?ro = "?w\<lparr>read_only := (\<lambda>p. p = ''a.cs'')\<rparr>"
  let ?lim = "with_write_limit ?w ''a.cs'' 5"
  have fa: "files ?w ''a.cs'' = Inr ?a"
    and fb: "files ?w ''b.cs'' = Inl FileNotFoundError"
    and fc: "files ?w ''c.cs'' = Inr ''class C { }\<newline>''"
    and pb: "\<not> present ?w ''b.cs''"
    and c0: "console ?w = []"
    by (simp_all add: with_file_def no_files_def)
  have u: "universal_newlines ?a = ?a" by (rule universal_newlines_id) simp
  have r: "reindent_text ?a = ?a" by code_simp
  \<comment> \<open>a file that cannot be read, between two that can\<close>
  from batch_isolation [of ?w "''b.cs''" FileNotFoundError "[''a.cs'']" "[''c.cs'']"] fb
  have "fix_indentation_files [''a.cs'', ''b.cs'', ''c.cs''] ?w =
        fix_indentation_files [''c.cs'']
          (print_line (fix_indentation_files [''a.cs''] ?w)
             (Error_fixing ''b.cs'' FileNotFoundError))"
    by simp
  moreover have "console (fix_indentation_files [''c.cs'']
          (print_line (fix_indentation_files [''a.cs''] ?w)
             (Error_fixing ''b.cs'' FileNotFoundError))) =
        [Fixed_indentation ''a.cs'', Error_fixing ''b.cs'' FileNotFoundError,
         Fixed_indentation ''c.cs'']"
    by code_simp
  ultimately have one: "console (fix_indentation_files [''a.cs'', ''b.cs'', ''c.cs''] ?w) =
        [Fixed_indentation ''a.cs'', Error_fixing ''b.cs'' FileNotFoundError,
         Fixed_indentation ''c.cs'']"
    by simp
  \<comment> \<open>the files not in the list are not touched\<close>
  have "''c.cs'' \<notin> set [''a.cs'', ''b.cs'']" by simp
  with batch_isolation [of ?w _ _ "[''a.cs'', ''b.cs'']"]
  have "files (fix_indentation_files [''a.cs'', ''b.cs''] ?w) ''c.cs'' = files ?w ''c.cs''"
    by blast
  with fc have two: "files (fix_indentation_files [''a.cs'', ''b.cs''] ?w) ''c.cs'' =
      Inr ''class C { }\<newline>''"
    by simp
  \<comment> \<open>a file that cannot be opened for writing\<close>
  have "files ?ro ''a.cs'' = Inr ?a \<and> read_only ?ro ''a.cs''"
    by (simp add: with_file_def no_files_def)
  with batch_isolation [of ?ro "''a.cs''" _ _ "[''c.cs'']" ?a]
  have "fix_indentation_files [''a.cs'', ''c.cs''] ?ro =
        fix_indentation_files [''c.cs'']
          (print_line ?ro (Error_fixing ''a.cs'' PermissionError))"
    by blast
  moreover have "console (fix_indentation_files [''c.cs'']
          (print_line ?ro (Error_fixing ''a.cs'' PermissionError))) =
        [Error_fixing ''a.cs'' PermissionError, Fixed_indentation ''c.cs'']"
    by code_simp
  ultimately have three: "console (fix_indentation_files [''a.cs'', ''c.cs''] ?ro) =
        [Error_fixing ''a.cs'' PermissionError, Fixed_indentation ''c.cs'']"
    by simp
  \<comment> \<open>a write that fails after five characters\<close>
  have "files ?lim ''a.cs'' = Inr ?a \<and> \<not> read_only ?lim ''a.cs'' \<and>
        write_limit ?lim ''a.cs'' = Some 5 \<and> 5 < length (reindent_text (universal_newlines ?a))"
    by (simp add: with_write_limit_def with_file_def no_files_def u r)
  with batch_isolation [of ?lim "''a.cs''" _ _ "[''c.cs'']" ?a 5]
  have lim: "fix_indentation_files [''a.cs'', ''c.cs''] ?lim =
        fix_indentation_files [''c.cs'']
          (print_line (put ?lim ''a.cs'' (take 5 (reindent_text (universal_newlines ?a))))
             (Error_fixing ''a.cs'' OSError))"
    by blast
  have "console (fix_indentation_files [''c.cs'']
          (print_line (put ?lim ''a.cs'' (take 5 (reindent_text (universal_newlines ?a))))
             (Error_fixing ''a.cs'' OSError))) =
        [Error_fixing ''a.cs'' OSError, Fixed_indentation ''c.cs'']"
    by code_simp
  with lim have four: "console (fix_indentation_files [''a.cs'', ''c.cs''] ?lim) =
        [Error_fixing ''a.cs'' OSError, Fixed_indentation ''c.cs'']"
    by simp
  have "files (fix_indentation_files [''c.cs'']
          (print_line (put ?lim ''a.cs'' (take 5 (reindent_text (universal_newlines ?a))))
             (Error_fixing ''a.cs'' OSError))) ''a.cs'' = Inr ''class''"
    by code_simp
  with lim have five: "files (fix_indentation_files [''a.cs'', ''c.cs''] ?lim) ''a.cs'' =
      Inr ''class''"
    by simp
  \<comment> \<open>the pattern counter on a list with a missing path\<close>
  have all: "\<forall>q\<in>set [''a.cs'', ''b.cs'', ''c.cs''].
      \<not> present ?w q \<or> (\<exists>content. files ?w q = Inr content)"
    using fa pb fc by simp
  have rep: "concat (map (async_report ?w) [''a.cs'', ''b.cs'', ''c.cs'']) = [File_not_found ''b.cs'']"
    by code_simp
  from batch_isolation [of ?w _ _ "[''a.cs'', ''b.cs'', ''c.cs'']"] all
  have "main_on [''a.cs'', ''b.cs'', ''c.cs''] ?w =
        (Inr 0, ?w\<lparr>console := console ?w @
           concat (map (async_report ?w) [''a.cs'', ''b.cs'', ''c.cs'']) @ [Fixed_files 0]\<rparr>)"
    by blast
  with rep c0 have six: "\<exists>w'. main_on [''a.cs'', ''b.cs'', ''c.cs''] ?w = (Inr 0, w') \<and>
      console w' = [File_not_found ''b.cs'', Fixed_files 0]"
    by simp
  from one two three four five six show ?thesis by blast
qed

text \<open>
  C7 as the spec words it fails: the pattern counter guards only against a missing path.
  A file that exists and cannot be decoded raises out of \<open>main\<close>: the file after it is
  never looked at, and the line with the count is never printed.
\<close>

theorem batch_isolation_counterexample:
  "main_on [''a.cs'', ''b.cs'']
     (with_unreadable (with_file no_files ''b.cs'' ''async Task B() { }'') ''a.cs''
        UnicodeDecodeError)
   = (Inl UnicodeDecodeError,
      with_unreadable (with_file no_files ''b.cs'' ''async Task B() { }'') ''a.cs''
        UnicodeDecodeError) \<and>
   console (with_unreadable (with_file no_files ''b.cs'' ''async Task B() { }'') ''a.cs''
        UnicodeDecodeError) = []"
  by (simp add: main_on_def process_file_unreadable with_unreadable_def with_file_def
      no_files_def)

text \<open>
  C8. The two counts are counts of non-overlapping matches: what the call counts for
  either pattern is the list of matches that the documented scan of \<open>re.findall\<close> finds,
  from the left, without overlap. The deficit is the count for the declaration pattern
  less the count for the fulfillment pattern, and the call prints it exactly when it is
  positive: three declarations and one fulfillment give the report of 2, two and two give
  no line.
\<close>

theorem deficit_report:
  assumes "read_text w file_path = Inr content"
  shows "findall_async_Task content = nonoverlapping_matches is_async_Task content \<and>
         findall_await content = nonoverlapping_matches is_await content \<and>
         (\<exists>r w'. fix_async_method_without_await w file_path = (r, w') \<and>
            console w' = console w @
              (if 0 < deficit content
               then [Found_async_without_await (nat (deficit content)) file_path] else []))"
proof -
  let ?w' = "w\<lparr>console := console w @
                (if 0 < deficit content
                 then [Found_async_without_await (nat (deficit content)) file_path] else [])\<rparr>"
  have "fix_async_method_without_await w file_path = (Inr (False, content), ?w')"
    by (simp only: fix_async_result [OF assms] report_deficit)
  moreover have "console ?w' = console w @
                (if 0 < deficit content
                 then [Found_async_without_await (nat (deficit content)) file_path] else [])"
    by simp
  ultimately have "\<exists>r w'. fix_async_method_without_await w file_path = (r, w') \<and>
            console w' = console w @
              (if 0 < deficit content
               then [Found_async_without_await (nat (deficit content)) file_path] else [])"
    by blast
  with findall_async_Task_spec [of content] findall_await_spec [of content]
  show ?thesis by blast
qed

theorem deficit_report_witness:
  "length (nonoverlapping_matches is_async_Task
      ''async Task A(){await  x;} async Task B(){} async\<newline>Task C(){}'') = 3 \<and>
   length (nonoverlapping_matches is_await
      ''async Task A(){await  x;} async Task B(){} async\<newline>Task C(){}'') = 1 \<and>
   (\<exists>r w'. fix_async_method_without_await
       (with_file no_files ''A.cs''
          ''async Task A(){await  x;} async Task B(){} async\<newline>Task C(){}'') ''A.cs'' = (r, w') \<and>
       console w' = [Found_async_without_await 2 ''A.cs'']) \<and>
   length (nonoverlapping_matches is_async_Task
      ''async Task A(){await x;} async Task B(){await y;}'') = 2 \<and>
   length (nonoverlapping_matches is_await
      ''async Task A(){await x;} async Task B(){await y;}'') = 2 \<and>
   (\<exists>r w'. fix_async_method_without_await
       (with_file no_files ''B.cs''
          ''async Task A(){await x;} async Task B(){await y;}'') ''B.cs'' = (r, w') \<and>
       console w' = [])"
proof -
  let ?a = "''async Task A(){await  x;} async Task B(){} async\<newline>Task C(){}''"
  let ?b = "''async Task A(){await x;} async Task B(){await y;}''"
  have fa: "read_text (with_file no_files ''A.cs'' ?a) ''A.cs'' = Inr ?a"
    by (rule read_text_with_file) simp
  have fb: "read_text (with_file no_files ''B.cs'' ?b) ''B.cs'' = Inr ?b"
    by (rule read_text_with_file) simp
  have ca: "length (findall_async_Task ?a) = 3" "length (findall_await ?a) = 1" by code_simp+
  have cb: "length (findall_async_Task ?b) = 2" "length (findall_await ?b) = 2" by code_simp+
  note ra = deficit_report [OF fa]
  note rb = deficit_report [OF fb]
  from ra ca have na: "length (nonoverlapping_matches is_async_Task ?a) = 3"
    "length (nonoverlapping_matches is_await ?a) = 1" by simp_all
  from rb cb have nb: "length (nonoverlapping_matches is_async_Task ?b) = 2"
    "length (nonoverlapping_matches is_await ?b) = 2" by simp_all
  have da: "deficit ?a = 2" unfolding deficit_def na by simp
  have db: "deficit ?b = 0" unfolding deficit_def nb by simp
  have c0: "console (with_file no_files ''A.cs'' ?a) = []"
    "console (with_file no_files ''B.cs'' ?b) = []"
    by (simp_all add: with_file_def no_files_def)
  from ra have "\<exists>r w'. fix_async_method_without_await
       (with_file no_files ''A.cs'' ?a) ''A.cs'' = (r, w') \<and>
       console w' = console (with_file no_files ''A.cs'' ?a) @
         (if 0 < deficit ?a then [Found_async_without_await (nat (deficit ?a)) ''A.cs''] else [])"
    by blast
  then have a: "\<exists>r w'. fix_async_method_without_await
       (with_file no_files ''A.cs'' ?a) ''A.cs'' = (r, w') \<and>
       console w' = [Found_async_without_await 2 ''A.cs'']"
    unfolding da c0 by simp
  from rb have "\<exists>r w'. fix_async_method_without_await
       (with_file no_files ''B.cs'' ?b) ''B.cs'' = (r, w') \<and>
       console w' = console (with_file no_files ''B.cs'' ?b) @
         (if 0 < deficit ?b then [Found_async_without_await (nat (deficit ?b)) ''B.cs''] else [])"
    by blast
  then have b: "\<exists>r w'. fix_async_method_without_await
       (with_file no_files ''B.cs'' ?b) ''B.cs'' = (r, w') \<and> console w' = []"
    unfolding db c0 by simp
  from na nb a b show ?thesis by blast
qed

text \<open>
  C9 as the spec words it fails: the loop does not look for the end marker before it
  moves a line. In a document whose region is opened and never closed there is no
  end-marker line at all, and the line after the start marker is moved all the same.
\<close>

theorem marker_lines_counterexample:
  "fix_lines [''#region IInterpretableModel Implementation\<newline>'', ''    a\<newline>''] ! 1
     = ''        a\<newline>'' \<and>
   filter (str_in region_end)
     [''#region IInterpretableModel Implementation\<newline>'', ''    a\<newline>''] = []"
  by code_simp

text \<open>
  C9, as the code has it. A line that holds the start marker or the end marker is emitted
  as it is, whatever its indentation; and a line the loop changes lies after a
  start-marker line, with no marker in any line from there up to and including itself.
  Whether an end marker follows does not matter.
\<close>

theorem marker_lines_verbatim:
  assumes "i < length ls"
  shows "(str_in region_start (ls ! i) \<or> str_in region_end (ls ! i) \<longrightarrow>
            fix_lines ls ! i = ls ! i) \<and>
         (fix_lines ls ! i \<noteq> ls ! i \<longrightarrow>
            (\<exists>j<i. str_in region_start (ls ! j) \<and>
               (\<forall>k. j < k \<and> k \<le> i \<longrightarrow>
                  \<not> str_in region_start (ls ! k) \<and> \<not> str_in region_end (ls ! k))))"
proof (intro conjI impI)
  assume "str_in region_start (ls ! i) \<or> str_in region_end (ls ! i)"
  with assms show "fix_lines ls ! i = ls ! i"
    using emit_start_marker emit_end_marker by (auto simp: fix_lines_nth)
next
  assume ch: "fix_lines ls ! i \<noteq> ls ! i"
  from fix_lines_changed [OF assms ch]
  have inr: "flag_after False (take i ls)"
    and here: "\<not> str_in region_start (ls ! i)" "\<not> str_in region_end (ls ! i)"
    by (simp_all add: in_region_at_flag)
  from flag_after_opened [OF inr] assms obtain j where j: "j < i"
    "str_in region_start (ls ! j)"
    "\<forall>k. j < k \<and> k < i \<longrightarrow> \<not> str_in region_start (ls ! k) \<and> \<not> str_in region_end (ls ! k)"
    by auto
  have "\<forall>k. j < k \<and> k \<le> i \<longrightarrow> \<not> str_in region_start (ls ! k) \<and> \<not> str_in region_end (ls ! k)"
  proof (intro allI impI)
    fix k assume "j < k \<and> k \<le> i"
    then have "(j < k \<and> k < i) \<or> k = i" by auto
    with j(3) here show "\<not> str_in region_start (ls ! k) \<and> \<not> str_in region_end (ls ! k)"
      by blast
  qed
  with j show "\<exists>j<i. str_in region_start (ls ! j) \<and>
               (\<forall>k. j < k \<and> k \<le> i \<longrightarrow>
                  \<not> str_in region_start (ls ! k) \<and> \<not> str_in region_end (ls ! k))"
    by blast
qed

theorem marker_lines_verbatim_witness:
  "fix_lines [''    #region IInterpretableModel Implementation\<newline>'', ''    a\<newline>'',
              ''    #endregion\<newline>''] ! 0
     = ''    #region IInterpretableModel Implementation\<newline>'' \<and>
   fix_lines [''    #region IInterpretableModel Implementation\<newline>'', ''    a\<newline>'',
              ''    #endregion\<newline>''] ! 2
     = ''    #endregion\<newline>'' \<and>
   fix_lines [''    #region IInterpretableModel Implementation\<newline>'', ''    a\<newline>'',
              ''    #endregion\<newline>''] ! 1
     \<noteq> ''    a\<newline>'' \<and>
   str_in region_start ([''    #region IInterpretableModel Implementation\<newline>'', ''    a\<newline>'',
              ''    #endregion\<newline>''] ! 0) \<and>
   \<not> str_in region_start ''    a\<newline>'' \<and> \<not> str_in region_end ''    a\<newline>''"
proof -
  let ?ls = "[''    #region IInterpretableModel Implementation\<newline>'', ''    a\<newline>'',
              ''    #endregion\<newline>'']"
  have s: "str_in region_start (?ls ! 0)" by code_simp
  have e: "str_in region_end (?ls ! 2)" by code_simp
  have "0 < length ?ls" by simp
  from marker_lines_verbatim [OF this] s have a: "fix_lines ?ls ! 0 = ?ls ! 0" by blast
  have "2 < length ?ls" by simp
  from marker_lines_verbatim [OF this] e have b: "fix_lines ?ls ! 2 = ?ls ! 2" by blast
  have ch: "fix_lines ?ls ! 1 \<noteq> ?ls ! 1" by code_simp
  have "1 < length ?ls" by simp
  from marker_lines_verbatim [OF this] ch
  obtain j where j: "j < 1" "str_in region_start (?ls ! j)"
    "\<forall>k. j < k \<and> k \<le> 1 \<longrightarrow> \<not> str_in region_start (?ls ! k) \<and> \<not> str_in region_end (?ls ! k)"
    by blast
  from j(1) have j0: "j = 0" by simp
  from j(3) j0 have "\<not> str_in region_start (?ls ! 1) \<and> \<not> str_in region_end (?ls ! 1)"
    by blast
  then have c: "\<not> str_in region_start ''    a\<newline>'' \<and> \<not> str_in region_end ''    a\<newline>''" by simp
  from j(2) j0 have d: "str_in region_start (?ls ! 0)" by simp
  from ch have ch': "fix_lines ?ls ! 1 \<noteq> ''    a\<newline>''" by simp
  from a b have a': "fix_lines ?ls ! 0 = ''    #region IInterpretableModel Implementation\<newline>''"
    and b': "fix_lines ?ls ! 2 = ''    #endregion\<newline>''" by simp_all
  from a' b' ch' d c show ?thesis by blast
qed

text \<open>
  C10. When the declaration is absent and no line of the document, with its leading
  whitespace stripped, starts with \<open>using\<close> and a space and holds a semicolon, the call
  inserts nothing, writes nothing, prints nothing and returns \<open>False\<close>: the world it
  returns is the world it was given.
\<close>

theorem no_anchor_no_insert:
  assumes "read_text w file_path = Inr content"
    and "\<not> str_in using_decl content"
    and "\<forall>line\<in>set (split_nl content).
           \<not> (startswith (lstrip line) ''using '' \<and> str_in '';'' line)"
  shows "check_and_add_using w file_path = (Inr False, w)"
proof -
  from assms(3) have "\<forall>line\<in>set (split_nl content). \<not> is_using_line line"
    by (simp add: is_using_line_lstrip)
  with assms(1,2) show ?thesis by (rule check_no_anchor)
qed

theorem no_anchor_no_insert_witness:
  "check_and_add_using (with_file no_files ''a.cs'' ''namespace X\<newline>{\<newline>}\<newline>'') ''a.cs''
     = (Inr False, with_file no_files ''a.cs'' ''namespace X\<newline>{\<newline>}\<newline>'')"
proof -
  let ?t = "''namespace X\<newline>{\<newline>}\<newline>''"
  have f: "read_text (with_file no_files ''a.cs'' ?t) ''a.cs'' = Inr ?t"
    by (rule read_text_with_file) simp
  have d: "\<not> str_in using_decl ?t" by code_simp
  have a: "\<forall>line\<in>set (split_nl ?t). \<not> (startswith (lstrip line) ''using '' \<and> str_in '';'' line)"
    by code_simp
  from no_anchor_no_insert [OF f d a] show ?thesis .
qed

end
